theory Spec2Isabelle
  imports Complex_Main "HOL-Library.Char_ord" "HOL-Library.List_Lexorder"
    "HOL-Library.Product_Lexorder"
begin

section \<open>Numbers\<close>

text \<open>
  Python numbers (\<open>int\<close> and \<open>float\<close>) that take part in a division or in a product with a
  float literal are modelled as exact rationals; incident counts, minutes and transfer
  counts, which the source keeps as \<open>int\<close>, are integers. Rounding errors and overflow of
  binary floating point are outside this model. The concrete inputs below are chosen so
  that the float computation of the source is exact (small integers and multiples of
  \<open>1/2\<close>) wherever a value is compared for equality or decides a result; the Balanced
  weights of the example network are the one exception, and there the costs that are
  compared lie far apart.

  Python 3's \<open>round(x)\<close> with one argument returns the nearest integer and resolves a tie
  to the even neighbour.
\<close>

definition py_round :: "rat \<Rightarrow> int" where
  "py_round x =
     (let f = \<lfloor>x\<rfloor>; d = x - of_int f
      in if d < 1 / 2 then f
         else if 1 / 2 < d then f + 1
         else if even f then f else f + 1)"

section \<open>score\_calculator.py\<close>

text \<open>
  A baseline dictionary. The key \<open>std_dev\<close> (a square root, read by no scoring
  function) is left out; \<open>min\<close> and \<open>max\<close> are the fields \<open>minv\<close> and \<open>maxv\<close>.
\<close>

record baseline =
  mean :: rat
  median :: rat
  minv :: rat
  maxv :: rat
  p25 :: rat
  p50 :: rat
  p75 :: rat

text \<open>
  A value of the \<open>line_performance\<close> dictionary is either a dictionary, of which only the
  key \<open>on_time_percent\<close> is ever read (it may be absent), or a plain number.
\<close>

datatype line_data = PerfDict "rat option" | PerfNum rat

text \<open>
  Dictionaries are association lists in insertion order; a Python dictionary has each
  key once, and \<open>map_of\<close> is the lookup.
\<close>

record score_calculator =
  crime_data :: "(string \<times> int) list"
  line_performance :: "(string \<times> line_data) list"
  crime_baseline :: baseline
  reliability_baseline :: baseline

definition statistics_mean :: "rat list \<Rightarrow> rat" where
  "statistics_mean xs = sum_list xs / of_nat (length xs)"

definition statistics_median :: "rat list \<Rightarrow> rat" where
  "statistics_median xs =
     (let s = sort xs; n = length s
      in if odd n then s ! (n div 2)
         else (s ! (n div 2 - 1) + s ! (n div 2)) / 2)"

text \<open>\<open>int(n * 0.25)\<close> and its siblings: the index \<open>\<lfloor>n * q\<rfloor>\<close>, below \<open>n\<close> for \<open>q < 1\<close>.\<close>

definition pct_index :: "nat \<Rightarrow> rat \<Rightarrow> nat" where
  "pct_index n q = nat \<lfloor>of_nat n * q\<rfloor>"

definition baseline_of :: "rat list \<Rightarrow> baseline" where
  "baseline_of vals =
     (let sorted_vals = sort vals; n = length sorted_vals
      in \<lparr> mean = statistics_mean vals,
           median = statistics_median vals,
           minv = Min (set vals),
           maxv = Max (set vals),
           p25 = sorted_vals ! pct_index n (1 / 4),
           p50 = sorted_vals ! pct_index n (1 / 2),
           p75 = sorted_vals ! pct_index n (3 / 4) \<rparr>)"

definition calculate_crime_baseline :: "(string \<times> int) list \<Rightarrow> baseline" where
  "calculate_crime_baseline cd =
     (if cd = [] then
        \<lparr> mean = 5, median = 5, minv = 0, maxv = 20, p25 = 3, p50 = 5, p75 = 8 \<rparr>
      else baseline_of (map (\<lambda>(k, c). of_int c) cd))"

definition perf_value :: "rat \<Rightarrow> line_data \<Rightarrow> rat" where
  "perf_value dflt ld =
     (case ld of
        PerfDict None \<Rightarrow> dflt
      | PerfDict (Some p) \<Rightarrow> p
      | PerfNum p \<Rightarrow> p)"

definition calculate_reliability_baseline :: "(string \<times> line_data) list \<Rightarrow> baseline" where
  "calculate_reliability_baseline lp =
     (if lp = [] then
        \<lparr> mean = 85, median = 85, minv = 77, maxv = 92, p25 = 82, p50 = 85, p75 = 88 \<rparr>
      else baseline_of (map (\<lambda>(k, ld). perf_value 85 ld) lp))"

text \<open>The constructor \<open>ScoreCalculator(crime_data, line_performance)\<close>.\<close>

definition ScoreCalculator ::
  "(string \<times> int) list \<Rightarrow> (string \<times> line_data) list \<Rightarrow> score_calculator" where
  "ScoreCalculator cd lp =
     \<lparr> crime_data = cd, line_performance = lp,
       crime_baseline = calculate_crime_baseline cd,
       reliability_baseline = calculate_reliability_baseline lp \<rparr>"

text \<open>
  \<open>update_crime_data\<close> and \<open>update_line_performance\<close> replace the data and leave the
  baselines as they were computed by the constructor.
\<close>

definition update_crime_data_sc ::
  "score_calculator \<Rightarrow> (string \<times> int) list \<Rightarrow> score_calculator" where
  "update_crime_data_sc sc cd = sc\<lparr>crime_data := cd\<rparr>"

definition update_line_performance ::
  "score_calculator \<Rightarrow> (string \<times> line_data) list \<Rightarrow> score_calculator" where
  "update_line_performance sc lp = sc\<lparr>line_performance := lp\<rparr>"

text \<open>The route's average crime count, \<open>route_avg_crime\<close> in \<open>calculate_safety_score\<close>.\<close>

definition route_avg_crime :: "score_calculator \<Rightarrow> string list \<Rightarrow> rat" where
  "route_avg_crime sc stations =
     (let crimes_list =
            map (\<lambda>station. case map_of (crime_data sc) station of
                              Some c \<Rightarrow> of_int c
                            | None \<Rightarrow> mean (crime_baseline sc)) stations
      in sum_list crimes_list / of_nat (length crimes_list))"

text \<open>The percentile that \<open>calculate_safety_score\<close> computes from the average.\<close>

definition safety_percentile :: "score_calculator \<Rightarrow> rat \<Rightarrow> rat" where
  "safety_percentile sc avg =
     (let all_crimes = map snd (crime_data sc)
      in if all_crimes \<noteq> [] then
           (let crime_count = length (filter (\<lambda>c. avg \<le> of_int c) all_crimes)
            in of_int (int (length all_crimes) - int crime_count)
                 / of_nat (length all_crimes) * 100)
         else if avg \<le> mean (crime_baseline sc) then 50 else 30)"

definition calculate_safety_score :: "score_calculator \<Rightarrow> string list \<Rightarrow> int" where
  "calculate_safety_score sc stations =
     (if stations = [] then 5
      else
        let percentile = safety_percentile sc (route_avg_crime sc stations);
            safety_score =
              (if 90 \<le> percentile then 10
               else if 75 \<le> percentile then 8 + (percentile - 75) / 15
               else if 50 \<le> percentile then 6 + (percentile - 50) / 25
               else if 25 \<le> percentile then 4 + (percentile - 25) / 25
               else 2 + percentile / 25)
        in py_round safety_score)"

definition route_avg_performance :: "score_calculator \<Rightarrow> string list \<Rightarrow> rat" where
  "route_avg_performance sc lines =
     (let performance_list =
            map (\<lambda>line. case map_of (line_performance sc) line of
                           Some line_data \<Rightarrow> perf_value (mean (reliability_baseline sc)) line_data
                         | None \<Rightarrow> mean (reliability_baseline sc)) lines
      in sum_list performance_list / of_nat (length performance_list))"

definition reliability_percentile :: "score_calculator \<Rightarrow> rat \<Rightarrow> rat" where
  "reliability_percentile sc avg =
     (let all_perfs = map (\<lambda>(k, line_data). perf_value 85 line_data) (line_performance sc)
      in if all_perfs \<noteq> [] then
           (let better_count = length (filter (\<lambda>p. p < avg) all_perfs)
            in of_nat better_count / of_nat (length all_perfs) * 100)
         else if mean (reliability_baseline sc) \<le> avg then 50 else 30)"

definition calculate_reliability_score :: "score_calculator \<Rightarrow> string list \<Rightarrow> int" where
  "calculate_reliability_score sc lines =
     (if lines = [] then 5
      else
        let percentile = reliability_percentile sc (route_avg_performance sc lines);
            reliability_score =
              (if 90 \<le> percentile then 10
               else if 75 \<le> percentile then 8 + (percentile - 75) / 15
               else if 50 \<le> percentile then 6 + (percentile - 50) / 25
               else if 25 \<le> percentile then 4 + (percentile - 25) / 25
               else 2 + percentile / 25)
        in py_round reliability_score)"

text \<open>
  \<open>calculate_efficiency_score(num_transfers, travel_time_minutes)\<close>; the second argument
  only appears in a log message. It is a method, but it reads nothing of the calculator.
\<close>

definition calculate_efficiency_score :: "int \<Rightarrow> int \<Rightarrow> int" where
  "calculate_efficiency_score num_transfers travel_time_minutes =
     (let transfer_penalty = min (of_int num_transfers * (3 / 2)) (10 :: rat);
          efficiency_score = max 0 (min 10 (10 - transfer_penalty))
      in py_round efficiency_score)"

section \<open>subway\_graph.py\<close>

text \<open>
  A node of the search graph is a pair (station, line); an entry of an adjacency list is
  (next station, line, travel time in minutes). The static tables are association lists in
  the order of the dictionary literals of the source; no key occurs twice in them.
\<close>

type_synonym node = "string \<times> string"
type_synonym edge = "string \<times> string \<times> int"
type_synonym adjacency = "(node \<times> edge list) list"

definition SUBWAY_LINES :: "(string \<times> string list) list" where
  "SUBWAY_LINES =
   [(''1'',
      [''South Ferry'', ''Rector Street'', ''Cortlandt Street'', ''Chambers Street'',
       ''Franklin Street'', ''Canal Street'', ''Spring Street'', ''Houston Street'',
       ''14th Street'', ''18th Street'', ''23rd Street'', ''28th Street'',
       ''34th Street-Herald Square'', ''42nd Street-Times Square'', ''49th Street'',
       ''59th Street-Columbus Circle'', ''72nd Street'', ''79th Street'']),
    (''2'',
      [''Bowling Green'', ''Wall Street'', ''Fulton Street'', ''Park Place'',
       ''Chambers Street'', ''Franklin Street'', ''Canal Street'', ''Spring Street'',
       ''Houston Street'', ''14th Street'', ''18th Street'', ''23rd Street'', ''28th Street'',
       ''34th Street-Herald Square'', ''42nd Street-Times Square'', ''49th Street'',
       ''59th Street-Columbus Circle'', ''72nd Street'']),
    (''3'',
      [''Bowling Green'', ''Wall Street'', ''Fulton Street'', ''Park Place'',
       ''Chambers Street'', ''Franklin Street'', ''Canal Street'', ''Spring Street'',
       ''Houston Street'', ''14th Street'', ''18th Street'', ''23rd Street'', ''28th Street'',
       ''34th Street-Herald Square'', ''42nd Street-Times Square'', ''49th Street'',
       ''59th Street-Columbus Circle'', ''72nd Street'']),
    (''4'',
      [''Bowling Green'', ''Wall Street'', ''Fulton Street'', ''Park Place'',
       ''Chambers Street'', ''Brooklyn Bridge-City Hall'', ''Spring Street'', ''Canal Street'',
       ''14th Street-Union Square'', ''18th Street'', ''23rd Street-Lexington'',
       ''28th Street-Lexington'', ''33rd Street'', ''Grand Central-42nd Street'',
       ''59th Street'', ''86th Street'']),
    (''5'',
      [''Bowling Green'', ''Wall Street'', ''Fulton Street'', ''Park Place'',
       ''Chambers Street'', ''Brooklyn Bridge-City Hall'', ''Spring Street'', ''Canal Street'',
       ''14th Street-Union Square'', ''18th Street'', ''23rd Street-Lexington'',
       ''28th Street-Lexington'', ''33rd Street'', ''Grand Central-42nd Street'',
       ''59th Street'', ''86th Street'']),
    (''6'',
      [''Bowling Green'', ''Wall Street'', ''Fulton Street'', ''Park Place'',
       ''Chambers Street'', ''Brooklyn Bridge-City Hall'', ''Spring Street'', ''Canal Street'',
       ''14th Street-Union Square'', ''18th Street'', ''23rd Street-Lexington'',
       ''28th Street-Lexington'', ''33rd Street'', ''Grand Central-42nd Street'',
       ''59th Street'']),
    (''A'',
      [''Inwood-207th Street'', ''175th Street'', ''145th Street'', ''125th Street'',
       ''59th Street-Columbus Circle'', ''42nd Street-Port Authority'',
       ''34th Street-Penn Station'', ''14th Street'', ''8th Avenue-14th Street'',
       ''West 4th Street'', ''Spring Street'', ''Canal Street'', ''Chambers Street'',
       ''Fulton Street'', ''Jay Street-MetroTech'', ''High Street-Brooklyn Bridge'',
       ''Hoyt-Schermerhorn'', ''Carroll Street'', ''Nostrand Avenue'',
       ''Kingston-Throop Avenues'']),
    (''C'',
      [''168th Street'', ''145th Street'', ''125th Street'', ''110th Street'', ''72nd Street'',
       ''59th Street-Columbus Circle'', ''42nd Street-Port Authority'',
       ''34th Street-Penn Station'', ''14th Street'', ''8th Avenue-14th Street'',
       ''West 4th Street'', ''Spring Street'', ''Canal Street'', ''Chambers Street'',
       ''Fulton Street'', ''Jay Street-MetroTech'', ''Hoyt-Schermerhorn'', ''Carroll Street'',
       ''Nostrand Avenue'']),
    (''E'',
      [''Jamaica Center-Parsons/Archer'', ''Forest Hills-71st Avenue'',
       ''Jackson Heights-Roosevelt Avenue'', ''42nd Street-Port Authority'',
       ''34th Street-Penn Station'', ''14th Street'', ''8th Avenue-14th Street'',
       ''West 4th Street'', ''Spring Street'', ''Canal Street'', ''World Trade Center'']),
    (''F'',
      [''Jamaica Center-Parsons/Archer'', ''Forest Hills-71st Avenue'',
       ''Jackson Heights-Roosevelt Avenue'', ''23rd Street-Broadway-Lafayette'',
       ''14th Street-Broadway-Lafayette'', ''West 4th Street'', ''Broadway-Lafayette'',
       ''Spring Street'', ''Canal Street'', ''Chambers Street'', ''Jay Street-MetroTech'',
       ''Carroll Street'', ''Court Street'', ''Bergen Street'', ''Hoyt-Schermerhorn'']),
    (''N'',
      [''Astoria-Ditmars Boulevard'', ''30th Avenue'', ''Astoria Boulevard'',
       ''Queensboro Plaza'', ''Lexington Avenue'', ''Herald Square'', ''28th Street-Broadway'',
       ''23rd Street-Broadway'', ''14th Street'', ''8th Street'', ''Union Square-14th Street'',
       ''Canal Street'', ''Chambers Street'', ''Cortlandt Street'', ''Rector Street'',
       ''Whitehall Terminal'']),
    (''Q'',
      [''96th Street'', ''72nd Street'', ''57th Street'', ''42nd Street-Times Square'',
       ''34th Street'', ''Herald Square'', ''28th Street-Broadway'', ''23rd Street-Broadway'',
       ''14th Street'', ''Canal Street'', ''Chambers Street'', ''Cortlandt Street'',
       ''Bowling Green'']),
    (''R'',
      [''Forest Hills-71st Avenue'', ''Jackson Heights-Roosevelt Avenue'', ''Queensboro Plaza'',
       ''Lexington Avenue'', ''Herald Square'', ''28th Street-Broadway'',
       ''23rd Street-Broadway'', ''14th Street'', ''8th Street'', ''Canal Street'',
       ''Chambers Street'', ''Cortlandt Street'', ''Rector Street'', ''Whitehall Terminal'']),
    (''W'',
      [''Astoria-Ditmars Boulevard'', ''30th Avenue'', ''Astoria Boulevard'',
       ''Queensboro Plaza'', ''Lexington Avenue'', ''Herald Square'', ''28th Street-Broadway'',
       ''23rd Street-Broadway'', ''14th Street'', ''Canal Street'', ''Chambers Street'',
       ''Cortlandt Street'', ''Whitehall Terminal'']),
    (''L'',
      [''8th Avenue-14th Street'', ''6th Avenue'', ''Union Square-14th Street'', ''1st Avenue'',
       ''Bedford Avenue'', ''Lorimer Street'', ''Graham Avenue'', ''Jefferson Street'',
       ''Myrtle Avenue'']),
    (''G'',
      [''Court Square'', ''Greenpoint Avenue'', ''Nassau Avenue'', ''Metropolitan Avenue'',
       ''Broadway'', ''Myrtle-Willoughby Avenues'', ''Clinton-Washington'', ''Classon Avenue'',
       ''Nostrand Avenue'', ''Bedford-Stuyvesant'', ''Hoyt-Schermerhorn'', ''Carroll Street'',
       ''Fulton Street'']),
    (''S'',
      [''42nd Street-Times Square'', ''Grand Central-42nd Street'']),
    (''7'',
      [''Flushing-Main Street'', ''Woodside'', ''Jackson Heights-Roosevelt Avenue'',
       ''Queens Plaza'', ''Lexington Avenue'', ''Grand Central-42nd Street'',
       ''34th Street-Herald Square'', ''28th Street'', ''23rd Street'', ''18th Street'',
       ''14th Street'', ''42nd Street-Times Square''])]"

definition TRANSFER_POINTS ::
  "((string \<times> string) \<times> (string \<times> string \<times> int) list) list" where
  "TRANSFER_POINTS =
   [((''Canal Street'', ''1''),
      [(''Canal Street'', ''2'', 1), (''Canal Street'', ''3'', 1), (''Canal Street'', ''4'', 2),
       (''Canal Street'', ''5'', 2), (''Canal Street'', ''6'', 2), (''Canal Street'', ''A'', 2),
       (''Canal Street'', ''C'', 2)]),
    ((''Canal Street'', ''N''),
      [(''Canal Street'', ''R'', 1), (''Canal Street'', ''W'', 1), (''Canal Street'', ''A'', 2),
       (''Canal Street'', ''C'', 2), (''Canal Street'', ''1'', 2), (''Canal Street'', ''2'', 2),
       (''Canal Street'', ''6'', 2)]),
    ((''42nd Street-Times Square'', ''1''),
      [(''42nd Street-Times Square'', ''2'', 1), (''42nd Street-Times Square'', ''3'', 1),
       (''42nd Street-Times Square'', ''Q'', 2), (''42nd Street-Times Square'', ''N'', 2),
       (''42nd Street-Times Square'', ''R'', 2), (''42nd Street-Times Square'', ''W'', 2),
       (''42nd Street-Times Square'', ''S'', 1), (''Grand Central-42nd Street'', ''4'', 3),
       (''Grand Central-42nd Street'', ''5'', 3), (''Grand Central-42nd Street'', ''6'', 3),
       (''Grand Central-42nd Street'', ''7'', 3)]),
    ((''42nd Street-Times Square'', ''S''),
      [(''Grand Central-42nd Street'', ''4'', 1), (''Grand Central-42nd Street'', ''5'', 1),
       (''Grand Central-42nd Street'', ''6'', 1), (''Grand Central-42nd Street'', ''7'', 1)]),
    ((''Grand Central-42nd Street'', ''4''),
      [(''42nd Street-Times Square'', ''1'', 3), (''42nd Street-Times Square'', ''3'', 3),
       (''42nd Street-Times Square'', ''S'', 1)]),
    ((''Grand Central-42nd Street'', ''5''),
      [(''42nd Street-Times Square'', ''1'', 3), (''42nd Street-Times Square'', ''3'', 3),
       (''42nd Street-Times Square'', ''S'', 1)]),
    ((''Grand Central-42nd Street'', ''6''),
      [(''42nd Street-Times Square'', ''1'', 3), (''42nd Street-Times Square'', ''3'', 3),
       (''42nd Street-Times Square'', ''S'', 1)]),
    ((''Grand Central-42nd Street'', ''7''),
      [(''42nd Street-Times Square'', ''1'', 3), (''42nd Street-Times Square'', ''S'', 1)]),
    ((''Grand Central-42nd Street'', ''S''),
      [(''42nd Street-Times Square'', ''1'', 1), (''42nd Street-Times Square'', ''3'', 1)]),
    ((''14th Street'', ''1''),
      [(''14th Street'', ''2'', 1), (''14th Street'', ''3'', 1),
       (''14th Street-Union Square'', ''4'', 2), (''14th Street-Union Square'', ''5'', 2),
       (''14th Street-Union Square'', ''6'', 2), (''14th Street-Union Square'', ''L'', 1),
       (''14th Street'', ''N'', 2), (''14th Street'', ''Q'', 2), (''14th Street'', ''R'', 2),
       (''14th Street'', ''W'', 2), (''8th Avenue-14th Street'', ''A'', 2),
       (''8th Avenue-14th Street'', ''C'', 2), (''8th Avenue-14th Street'', ''E'', 2),
       (''8th Avenue-14th Street'', ''L'', 2)]),
    ((''Jay Street-MetroTech'', ''A''),
      [(''Jay Street-MetroTech'', ''C'', 1), (''Jay Street-MetroTech'', ''F'', 2),
       (''Jay Street-MetroTech'', ''R'', 2), (''High Street-Brooklyn Bridge'', ''A'', 1)]),
    ((''Jay Street-MetroTech'', ''C''),
      [(''Jay Street-MetroTech'', ''A'', 1), (''Jay Street-MetroTech'', ''F'', 2),
       (''Jay Street-MetroTech'', ''R'', 2)]),
    ((''Fulton Street'', ''2''),
      [(''Fulton Street'', ''3'', 1), (''Fulton Street'', ''4'', 1),
       (''Fulton Street'', ''5'', 1), (''Fulton Street'', ''6'', 1),
       (''Fulton Street'', ''A'', 1), (''Fulton Street'', ''C'', 1)]),
    ((''Fulton Street'', ''3''),
      [(''Fulton Street'', ''2'', 1), (''Fulton Street'', ''4'', 1),
       (''Fulton Street'', ''5'', 1), (''Fulton Street'', ''6'', 1),
       (''Fulton Street'', ''A'', 1), (''Fulton Street'', ''C'', 1)]),
    ((''Fulton Street'', ''4''),
      [(''Fulton Street'', ''2'', 1), (''Fulton Street'', ''3'', 1),
       (''Fulton Street'', ''5'', 1), (''Fulton Street'', ''6'', 1),
       (''Fulton Street'', ''A'', 1), (''Fulton Street'', ''C'', 1)]),
    ((''Fulton Street'', ''5''),
      [(''Fulton Street'', ''2'', 1), (''Fulton Street'', ''3'', 1),
       (''Fulton Street'', ''4'', 1), (''Fulton Street'', ''6'', 1),
       (''Fulton Street'', ''A'', 1), (''Fulton Street'', ''C'', 1)]),
    ((''Fulton Street'', ''6''),
      [(''Fulton Street'', ''2'', 1), (''Fulton Street'', ''3'', 1),
       (''Fulton Street'', ''4'', 1), (''Fulton Street'', ''5'', 1),
       (''Fulton Street'', ''A'', 1), (''Fulton Street'', ''C'', 1)]),
    ((''Fulton Street'', ''A''),
      [(''Fulton Street'', ''C'', 1), (''Fulton Street'', ''2'', 1),
       (''Fulton Street'', ''3'', 1), (''Fulton Street'', ''4'', 1),
       (''Fulton Street'', ''5'', 1), (''Fulton Street'', ''6'', 1)]),
    ((''Fulton Street'', ''C''),
      [(''Fulton Street'', ''A'', 1), (''Fulton Street'', ''2'', 1),
       (''Fulton Street'', ''3'', 1), (''Fulton Street'', ''4'', 1),
       (''Fulton Street'', ''5'', 1), (''Fulton Street'', ''6'', 1)]),
    ((''Canal Street'', ''A''),
      [(''Canal Street'', ''C'', 1), (''Canal Street'', ''1'', 2), (''Canal Street'', ''2'', 2),
       (''Canal Street'', ''4'', 2), (''Canal Street'', ''5'', 2), (''Canal Street'', ''6'', 2),
       (''Jay Street-MetroTech'', ''A'', 3)]),
    ((''Canal Street'', ''C''),
      [(''Canal Street'', ''A'', 1), (''Canal Street'', ''1'', 2), (''Canal Street'', ''2'', 2),
       (''Canal Street'', ''4'', 2), (''Canal Street'', ''5'', 2), (''Canal Street'', ''6'', 2),
       (''Jay Street-MetroTech'', ''C'', 3)])]"

definition LINE_PERFORMANCE :: "(string \<times> line_data) list" where
  "LINE_PERFORMANCE =
   [(''1'', PerfDict (Some 88)), (''2'', PerfDict (Some 85)), (''3'', PerfDict (Some 85)),
    (''4'', PerfDict (Some 87)), (''5'', PerfDict (Some 86)), (''6'', PerfDict (Some 88)),
    (''A'', PerfDict (Some 82)), (''C'', PerfDict (Some 81)), (''E'', PerfDict (Some 83)),
    (''F'', PerfDict (Some 78)), (''G'', PerfDict (Some 80)), (''N'', PerfDict (Some 79)),
    (''Q'', PerfDict (Some 84)), (''R'', PerfDict (Some 80)), (''W'', PerfDict (Some 77)),
    (''L'', PerfDict (Some 85)), (''7'', PerfDict (Some 83)), (''S'', PerfDict (Some 92))]"

text \<open>
  \<open>if key not in graph: graph[key] = []\<close> followed by \<open>graph[key].append(e)\<close>: a new key
  goes to the end of the dictionary, an old one keeps its place.
\<close>

fun append_edge :: "adjacency \<Rightarrow> node \<Rightarrow> edge \<Rightarrow> adjacency" where
  "append_edge [] key e = [(key, [e])]"
| "append_edge ((k, es) # g) key e =
     (if k = key then (k, es @ [e]) # g else (k, es) # append_edge g key e)"

text \<open>The travel time of the pair at index \<open>i\<close> of a line with \<open>n\<close> stations.\<close>

definition travel_time_at :: "nat \<Rightarrow> nat \<Rightarrow> int" where
  "travel_time_at i n = (if 0 < i \<and> int i < int n - 2 \<and> i mod 3 = 0 then 3 else 2)"

text \<open>The body of the loop over \<open>range(len(stations) - 1)\<close>.\<close>

definition add_line_pair :: "string \<Rightarrow> string list \<Rightarrow> nat \<Rightarrow> adjacency \<Rightarrow> adjacency" where
  "add_line_pair line sts i g =
     (let current_station = sts ! i;
          next_station = sts ! (i + 1);
          travel_time = travel_time_at i (length sts);
          g1 = append_edge g (current_station, line) (next_station, line, travel_time)
      in append_edge g1 (next_station, line) (current_station, line, travel_time))"

definition add_line :: "string \<times> string list \<Rightarrow> adjacency \<Rightarrow> adjacency" where
  "add_line ls g = (case ls of (line, sts) \<Rightarrow> fold (add_line_pair line sts) [0..<length sts - 1] g)"

definition ensure_key :: "adjacency \<Rightarrow> node \<Rightarrow> adjacency" where
  "ensure_key g key = (if key \<in> fst ` set g then g else g @ [(key, [])])"

definition add_transfers :: "node \<times> edge list \<Rightarrow> adjacency \<Rightarrow> adjacency" where
  "add_transfers kt g =
     (case kt of (key, transfers) \<Rightarrow> fold (\<lambda>e g'. append_edge g' key e) transfers (ensure_key g key))"

text \<open>\<open>_build_graph\<close>, with the two tables it reads as arguments.\<close>

definition build_graph ::
  "(string \<times> string list) list \<Rightarrow> (node \<times> edge list) list \<Rightarrow> adjacency" where
  "build_graph lines_table transfer_table =
     fold add_transfers transfer_table (fold add_line lines_table [])"

text \<open>\<open>_get_all_stations\<close>: the sorted list of the set of all station names.\<close>

definition get_all_stations :: "(string \<times> string list) list \<Rightarrow> string list" where
  "get_all_stations lines_table = sort (remdups (concat (map snd lines_table)))"

record subway_graph =
  graph :: adjacency
  all_stations :: "string list"

definition SubwayGraph ::
  "(string \<times> string list) list \<Rightarrow> (node \<times> edge list) list \<Rightarrow> subway_graph" where
  "SubwayGraph lines_table transfer_table =
     \<lparr> graph = build_graph lines_table transfer_table,
       all_stations = get_all_stations lines_table \<rparr>"

text \<open>The graph of the repository: \<open>SubwayGraph()\<close> over the two static tables.\<close>

definition nyc_subway :: subway_graph where
  "nyc_subway = SubwayGraph SUBWAY_LINES TRANSFER_POINTS"

definition get_adjacent_stations :: "subway_graph \<Rightarrow> string \<Rightarrow> string \<Rightarrow> edge list" where
  "get_adjacent_stations sg station line =
     (case map_of (graph sg) (station, line) of None \<Rightarrow> [] | Some es \<Rightarrow> es)"

definition get_available_lines :: "subway_graph \<Rightarrow> string \<Rightarrow> string list" where
  "get_available_lines sg station =
     sort (remdups (map snd (filter (\<lambda>(st, line). st = station) (map fst (graph sg)))))"

definition validate_station :: "subway_graph \<Rightarrow> string \<Rightarrow> bool" where
  "validate_station sg station = (station \<in> set (all_stations sg))"

section \<open>dijkstra\_router.py\<close>

text \<open>
  A weight function takes (current station, next station, current line, next line,
  travel time, is\_transfer).
\<close>

type_synonym weight_func = "string \<Rightarrow> string \<Rightarrow> string \<Rightarrow> string \<Rightarrow> int \<Rightarrow> bool \<Rightarrow> rat"

text \<open>An entry of the priority queue: (distance, station, line, transfers).\<close>

type_synonym pq_entry = "rat \<times> string \<times> string \<times> int"

type_synonym dist_map = "node \<rightharpoonup> rat"
type_synonym prev_map = "node \<rightharpoonup> (node \<times> int \<times> bool)"

text \<open>The dictionary that \<open>_dijkstra\<close> returns.\<close>

record path_info =
  start_station :: string
  end_station :: string
  total_distance :: rat
  visited :: "node set"
  previous :: prev_map
  end_state :: node
  transfers :: int

text \<open>
  The heap is modelled by the list of its entries. \<open>heapq.heappop\<close> removes and returns a
  least entry in the order of Python tuples, which is the lexicographic order of the
  components (strings by code point); equal entries cannot be told apart, so the layout of
  the heap does not matter. \<open>heapq.heappush\<close> adds an entry.
\<close>

fun heap_min :: "pq_entry list \<Rightarrow> pq_entry" where
  "heap_min (x # xs) = fold min xs x"

definition heappop :: "pq_entry list \<Rightarrow> pq_entry \<times> pq_entry list" where
  "heappop pq = (heap_min pq, remove1 (heap_min pq) pq)"

definition heappush :: "pq_entry list \<Rightarrow> pq_entry \<Rightarrow> pq_entry list" where
  "heappush pq x = pq @ [x]"

text \<open>
  The body of the loop over the adjacent stations of the current node: \<open>cur\<close> is the current
  node, \<open>vis\<close> the visited set; the state is (distances, previous, pq).
\<close>

definition relax ::
  "weight_func option \<Rightarrow> node \<Rightarrow> rat \<Rightarrow> int \<Rightarrow> node set \<Rightarrow> edge
     \<Rightarrow> dist_map \<times> prev_map \<times> pq_entry list \<Rightarrow> dist_map \<times> prev_map \<times> pq_entry list" where
  "relax weight_fn cur current_dist xfers vis e st =
     (case e of (next_station, next_line, travel_time) \<Rightarrow>
      case st of (distances, prev, pq) \<Rightarrow>
        if (next_station, next_line) \<in> vis then st
        else
          let is_transfer = (next_line \<noteq> snd cur);
              edge_weight =
                (case weight_fn of
                   Some w \<Rightarrow> w (fst cur) next_station (snd cur) next_line travel_time is_transfer
                 | None \<Rightarrow> of_int travel_time);
              new_distance = current_dist + edge_weight;
              new_transfers = xfers + (if is_transfer then 1 else 0)
          in if (case distances (next_station, next_line) of
                   None \<Rightarrow> True
                 | Some d \<Rightarrow> new_distance < d)
             then (distances((next_station, next_line) \<mapsto> new_distance),
                   prev((next_station, next_line) \<mapsto> (cur, travel_time, is_transfer)),
                   heappush pq (new_distance, next_station, next_line, new_transfers))
             else st)"

text \<open>
  The state of the \<open>while pq\<close> loop is (distances, previous, visited, pq). One iteration on
  a non-empty queue either returns the path dictionary (\<open>Inl\<close>) or goes on with the next
  state (\<open>Inr\<close>).
\<close>

type_synonym dijkstra_state = "dist_map \<times> prev_map \<times> node set \<times> pq_entry list"

definition dijkstra_step ::
  "subway_graph \<Rightarrow> string \<Rightarrow> string \<Rightarrow> weight_func option \<Rightarrow> int
     \<Rightarrow> dijkstra_state \<Rightarrow> path_info + dijkstra_state" where
  "dijkstra_step sg start_st end_st weight_fn max_transfers s =
     (case s of (distances, prev, vis, pq) \<Rightarrow>
      case heappop pq of ((current_dist, current_station, current_line, xfers), pq1) \<Rightarrow>
        if (current_station, current_line) \<in> vis then Inr (distances, prev, vis, pq1)
        else
          let vis1 = insert (current_station, current_line) vis
          in if current_station = end_st then
               Inl \<lparr> start_station = start_st, end_station = end_st,
                     total_distance = current_dist, visited = vis1, previous = prev,
                     end_state = (current_station, current_line), transfers = xfers \<rparr>
             else if max_transfers < xfers then Inr (distances, prev, vis1, pq1)
             else
               (case fold (relax weight_fn (current_station, current_line) current_dist xfers vis1)
                       (get_adjacent_stations sg current_station current_line)
                       (distances, prev, pq1) of
                  (distances2, prev2, pq2) \<Rightarrow> Inr (distances2, prev2, vis1, pq2)))"

text \<open>The nodes of a graph (keys and targets) and the nodes waiting in a queue.\<close>

definition graph_nodes :: "subway_graph \<Rightarrow> node set" where
  "graph_nodes sg =
     fst ` set (graph sg) \<union> (\<Union>(k, es) \<in> set (graph sg). (\<lambda>(st, l, t). (st, l)) ` set es)"

definition pq_nodes :: "pq_entry list \<Rightarrow> node set" where
  "pq_nodes pq = (\<lambda>(d, st, l, t). (st, l)) ` set pq"

function dijkstra_loop ::
  "subway_graph \<Rightarrow> string \<Rightarrow> string \<Rightarrow> weight_func option \<Rightarrow> int
     \<Rightarrow> dijkstra_state \<Rightarrow> path_info option" where
  "dijkstra_loop sg start_st end_st weight_fn max_transfers s =
     (if snd (snd (snd s)) = [] then None
      else case dijkstra_step sg start_st end_st weight_fn max_transfers s of
             Inl path \<Rightarrow> Some path
           | Inr s' \<Rightarrow> dijkstra_loop sg start_st end_st weight_fn max_transfers s')"
  by pat_completeness auto

text \<open>
  The loop terminates: an iteration either visits a node that was not visited before, or
  leaves the visited set alone and shortens the queue; every node that enters the queue is
  a node of the graph.
\<close>

lemma heap_min_in: "pq \<noteq> [] \<Longrightarrow> heap_min pq \<in> set pq"
proof (cases pq)
  case Nil then show "pq \<noteq> [] \<Longrightarrow> ?thesis" by simp
next
  case (Cons x xs)
  have "fold min ys y \<in> set (y # ys)" for y :: pq_entry and ys
    by (induction ys arbitrary: y) (auto simp: min_def)
  then show ?thesis using Cons by simp
qed

lemma pq_nodes_heappush:
  "pq_nodes (heappush pq (d, st, l, t)) = insert (st, l) (pq_nodes pq)"
  by (auto simp: pq_nodes_def heappush_def)

lemma relax_pq_nodes:
  assumes "relax wfn cur d t vis e (di, pr, pq) = (di2, pr2, pq2)"
  shows "pq_nodes pq2 \<subseteq> pq_nodes pq \<union> {(fst e, fst (snd e))}"
proof (cases e)
  case (fields st l tt)
  show ?thesis
  proof (cases "pq2 = pq")
    case True
    then show ?thesis by auto
  next
    case False
    with assms fields obtain nd nt where "pq2 = heappush pq (nd, st, l, nt)"
      by (auto simp: relax_def Let_def split: if_splits)
    then show ?thesis using fields by (simp add: pq_nodes_heappush)
  qed
qed

lemma fold_relax_pq_nodes:
  assumes "fold (relax wfn cur d t vis) es (di, pr, pq) = (di2, pr2, pq2)"
  shows "pq_nodes pq2 \<subseteq> pq_nodes pq \<union> (\<lambda>(st, l, t). (st, l)) ` set es"
  using assms
proof (induction es arbitrary: di pr pq)
  case Nil
  then show ?case by simp
next
  case (Cons e es)
  obtain di1 pr1 pq1 where r: "relax wfn cur d t vis e (di, pr, pq) = (di1, pr1, pq1)"
    by (metis prod_cases3)
  from Cons.prems r have "fold (relax wfn cur d t vis) es (di1, pr1, pq1) = (di2, pr2, pq2)"
    by simp
  from Cons.IH [OF this] relax_pq_nodes [OF r] show ?case
    by (cases e) auto
qed

lemma adjacent_in_graph_nodes:
  "(\<lambda>(st, l, t). (st, l)) ` set (get_adjacent_stations sg station line) \<subseteq> graph_nodes sg"
proof (cases "map_of (graph sg) (station, line)")
  case None
  then show ?thesis by (simp add: get_adjacent_stations_def)
next
  case (Some es)
  then have "((station, line), es) \<in> set (graph sg)" by (rule map_of_SomeD)
  then have "(\<lambda>(st, l, t). (st, l)) ` set es \<subseteq> graph_nodes sg"
    unfolding graph_nodes_def by blast
  with Some show ?thesis by (simp add: get_adjacent_stations_def)
qed

lemma finite_graph_nodes: "finite (graph_nodes sg)"
  by (auto simp: graph_nodes_def)

lemma finite_pq_nodes: "finite (pq_nodes pq)"
  by (simp add: pq_nodes_def)

text \<open>The number of nodes, of the graph or of the queue, that are not visited yet.\<close>

definition unsettled :: "subway_graph \<Rightarrow> dijkstra_state \<Rightarrow> nat" where
  "unsettled sg s = (case s of (di, pr, vis, pq) \<Rightarrow> card ((graph_nodes sg \<union> pq_nodes pq) - vis))"

lemma dijkstra_step_decreases:
  assumes "snd (snd (snd s)) \<noteq> []"
    and "dijkstra_step sg ss es wfn mt s = Inr s'"
  shows "unsettled sg s' < unsettled sg s
    \<or> unsettled sg s' = unsettled sg s \<and> length (snd (snd (snd s'))) < length (snd (snd (snd s)))"
proof -
  obtain di pr vis pq where s: "s = (di, pr, vis, pq)" by (metis prod_cases4)
  obtain cd cst cl ct where m: "heap_min pq = (cd, cst, cl, ct)" by (metis prod_cases4)
  from assms(1) s have ne: "pq \<noteq> []" by simp
  then have mem: "(cd, cst, cl, ct) \<in> set pq" using heap_min_in m by metis
  then have node: "(cst, cl) \<in> pq_nodes pq" by (force simp: pq_nodes_def)
  let ?pq1 = "remove1 (cd, cst, cl, ct) pq"
  have len: "length ?pq1 < length pq" using mem by (simp add: length_remove1) (use ne in \<open>cases pq; simp\<close>)
  have sub1: "pq_nodes ?pq1 \<subseteq> pq_nodes pq"
    unfolding pq_nodes_def by (intro image_mono set_remove1_subset)
  let ?U = "graph_nodes sg \<union> pq_nodes pq"
  have fin: "finite ?U" by (simp add: finite_graph_nodes finite_pq_nodes)
  show ?thesis
  proof (cases "(cst, cl) \<in> vis")
    case True
    with assms(2) s m have s': "s' = (di, pr, vis, ?pq1)"
      by (simp add: dijkstra_step_def heappop_def)
    have "(graph_nodes sg \<union> pq_nodes ?pq1) - vis \<subseteq> ?U - vis" using sub1 by auto
    then have "card ((graph_nodes sg \<union> pq_nodes ?pq1) - vis) \<le> card (?U - vis)"
      using fin by (intro card_mono) auto
    with len s s' show ?thesis by (auto simp: unsettled_def)
  next
    case False
    have strict: "card ((graph_nodes sg \<union> P) - insert (cst, cl) vis) < card (?U - vis)"
      if "P \<subseteq> ?U" for P
    proof (rule psubset_card_mono)
      show "finite (?U - vis)" using fin by simp
      show "(graph_nodes sg \<union> P) - insert (cst, cl) vis \<subset> ?U - vis"
        using that node False by auto
    qed
    show ?thesis
    proof (cases "cst = es \<or> mt < ct")
      case True
      with assms(2) s m False have s': "s' = (di, pr, insert (cst, cl) vis, ?pq1)"
        by (auto simp: dijkstra_step_def heappop_def Let_def split: if_splits)
      from strict [of "pq_nodes ?pq1"] sub1 s s' show ?thesis
        by (auto simp: unsettled_def)
    next
      case nt: False
      obtain d2 p2 pq2 where f: "fold (relax wfn (cst, cl) cd ct (insert (cst, cl) vis))
          (get_adjacent_stations sg cst cl) (di, pr, ?pq1) = (d2, p2, pq2)"
        by (metis prod_cases3)
      with assms(2) s m False nt have s': "s' = (d2, p2, insert (cst, cl) vis, pq2)"
        by (auto simp: dijkstra_step_def heappop_def Let_def)
      from fold_relax_pq_nodes [OF f] adjacent_in_graph_nodes [of sg cst cl] sub1
      have "pq_nodes pq2 \<subseteq> ?U" by blast
      from strict [OF this] s s' show ?thesis by (auto simp: unsettled_def)
    qed
  qed
qed

termination dijkstra_loop
proof (relation "inv_image (less_than <*lex*> less_than)
    (\<lambda>(sg, ss, es, wfn, mt, s). (unsettled sg s, length (snd (snd (snd s)))))")
  show "wf (inv_image (less_than <*lex*> less_than)
    (\<lambda>(sg, ss, es, wfn, mt, s). (unsettled sg s, length (snd (snd (snd s))))))"
    by (intro wf_inv_image wf_lex_prod wf_less_than)
next
  fix sg ss es wfn mt s s'
  assume "snd (snd (snd s)) \<noteq> []" and "dijkstra_step sg ss es wfn mt s = Inr s'"
  from dijkstra_step_decreases [OF this]
  show "((sg, ss, es, wfn, mt, s'), (sg, ss, es, wfn, mt, s))
    \<in> inv_image (less_than <*lex*> less_than)
      (\<lambda>(sg, ss, es, wfn, mt, s). (unsettled sg s, length (snd (snd (snd s)))))"
    by auto
qed

text \<open>\<open>_dijkstra\<close>: the loop from the initial state.\<close>

definition dijkstra ::
  "subway_graph \<Rightarrow> string \<Rightarrow> string \<Rightarrow> string \<Rightarrow> weight_func option \<Rightarrow> int
     \<Rightarrow> path_info option" where
  "dijkstra sg start_st start_line end_st weight_fn max_transfers =
     dijkstra_loop sg start_st end_st weight_fn max_transfers
       ([(start_st, start_line) \<mapsto> 0], Map.empty, {}, [(0, start_st, start_line, 0)])"

text \<open>
  A segment of a route: a ride (line, from, to, stops, time\_minutes) or a transfer
  (station, from\_line, to\_line, time\_minutes).
\<close>

datatype segment =
  Ride string string string int int
| Transfer string string string int

record route =
  stations :: "string list"
  lines :: "string list"
  segments :: "segment list"
  total_time_minutes :: int
  total_transfers :: int
  total_stops :: int

text \<open>
  The loop \<open>while current in path_info["previous"]\<close> of \<open>_extract_route\<close>. Nothing in the
  loop itself bounds the walk along the predecessor links, so the result is optional:
  \<open>None\<close> stands for a walk that never ends. The value at the exit is (current, stations,
  lines, total\_time, total\_transfers).
\<close>

partial_function (option) backtrack ::
  "prev_map \<Rightarrow> node \<Rightarrow> string list \<Rightarrow> string list \<Rightarrow> int \<Rightarrow> int
     \<Rightarrow> (node \<times> string list \<times> string list \<times> int \<times> int) option" where
  [code]: "backtrack prev current sts lns total_time n_transfers =
     (case prev current of
        None \<Rightarrow> Some (current, sts, lns, total_time, n_transfers)
      | Some (p, travel_time, is_transfer) \<Rightarrow>
          backtrack prev p (fst current # sts) (snd current # lns) (total_time + travel_time)
            (if is_transfer then n_transfers + 1 else n_transfers))"

text \<open>Removing repeated consecutive lines.\<close>

definition unique_lines :: "string list \<Rightarrow> string list" where
  "unique_lines lns = fold (\<lambda>line u. if u = [] \<or> last u \<noteq> line then u @ [line] else u) lns []"

text \<open>
  The segments: the state of the loop over \<open>range(1, len(stations))\<close> is (segments,
  segment\_stations, segment\_line).
\<close>

definition ride_segment :: "string \<Rightarrow> string list \<Rightarrow> segment" where
  "ride_segment segment_line segment_stations =
     Ride segment_line (hd segment_stations) (last segment_stations)
       (int (length segment_stations) - 1)
       (sum_list (replicate (length segment_stations - 1) 2))"

definition segment_step ::
  "string list \<Rightarrow> string list \<Rightarrow> nat \<Rightarrow> segment list \<times> string list \<times> string
     \<Rightarrow> segment list \<times> string list \<times> string" where
  "segment_step sts lns i st =
     (case st of (segs, segment_stations, segment_line) \<Rightarrow>
        if lns ! i \<noteq> segment_line then
          (segs @ [ride_segment segment_line segment_stations,
                   Transfer (sts ! i) segment_line (lns ! i) 2],
           [sts ! i], lns ! i)
        else (segs, segment_stations @ [sts ! i], segment_line))"

definition build_segments :: "string list \<Rightarrow> string list \<Rightarrow> segment list" where
  "build_segments sts lns =
     (case fold (segment_step sts lns) [1..<length sts] ([], [sts ! 0], lns ! 0) of
        (segs, segment_stations, segment_line) \<Rightarrow>
          if segment_stations \<noteq> [] then segs @ [ride_segment segment_line segment_stations]
          else segs)"

text \<open>\<open>_extract_route\<close>; \<open>None\<close> if the walk back never ends.\<close>

definition extract_route :: "path_info \<Rightarrow> route option" where
  "extract_route pinfo =
     (case backtrack (previous pinfo) (end_state pinfo) [] [] 0 0 of
        None \<Rightarrow> None
      | Some (current, sts0, lns0, total_time, n_transfers) \<Rightarrow>
          let sts = fst current # sts0;
              lns = snd current # lns0
          in Some \<lparr> stations = sts,
                    lines = unique_lines lns,
                    segments = build_segments sts lns,
                    total_time_minutes = total_time,
                    total_transfers = n_transfers,
                    total_stops = int (length sts) \<rparr>)"

text \<open>
  The loop over the start lines of \<open>find_shortest_path\<close>: the state is (best\_path,
  best\_distance), where the distance \<open>None\<close> is \<open>float("inf")\<close>.
\<close>

definition try_start_line ::
  "subway_graph \<Rightarrow> string \<Rightarrow> string \<Rightarrow> weight_func option \<Rightarrow> int \<Rightarrow> string
     \<Rightarrow> path_info option \<times> rat option \<Rightarrow> path_info option \<times> rat option" where
  "try_start_line sg start_st end_st weight_fn max_transfers start_line best =
     (case dijkstra sg start_st start_line end_st weight_fn max_transfers of
        None \<Rightarrow> best
      | Some path \<Rightarrow>
          if (case snd best of None \<Rightarrow> True | Some best_distance \<Rightarrow> total_distance path < best_distance)
          then (Some path, Some (total_distance path))
          else best)"

definition best_path_from ::
  "subway_graph \<Rightarrow> string \<Rightarrow> string \<Rightarrow> weight_func option \<Rightarrow> int \<Rightarrow> string list
     \<Rightarrow> path_info option" where
  "best_path_from sg start_st end_st weight_fn max_transfers start_lines =
     fst (fold (try_start_line sg start_st end_st weight_fn max_transfers) start_lines (None, None))"

text \<open>
  \<open>find_shortest_path\<close>. The outer \<open>Some\<close> says that the call returns; the value inside is
  the route, or \<open>None\<close> for the source's \<open>None\<close> (no route found).
\<close>

definition find_shortest_path ::
  "subway_graph \<Rightarrow> string \<Rightarrow> string \<Rightarrow> weight_func option \<Rightarrow> int \<Rightarrow> route option option" where
  "find_shortest_path sg start_st end_st weight_fn max_transfers =
     (if \<not> validate_station sg start_st then Some None
      else if \<not> validate_station sg end_st then Some None
      else if start_st = end_st then
        Some (Some \<lparr> stations = [start_st], lines = [], segments = [],
                      total_time_minutes = 0, total_transfers = 0, total_stops = 1 \<rparr>)
      else
        let start_lines = get_available_lines sg start_st
        in if start_lines = [] then Some None
           else
             (case best_path_from sg start_st end_st weight_fn max_transfers start_lines of
                None \<Rightarrow> Some None
              | Some best_path \<Rightarrow> map_option Some (extract_route best_path)))"

section \<open>route\_optimizer.py\<close>

text \<open>
  The optimizer holds a router, which is nothing but its graph, and the crime map (the
  field \<open>crime_data\<close> of the source).
\<close>

record route_optimizer =
  router :: subway_graph
  opt_crime_data :: "(string \<times> int) list"

definition crimes_at :: "(string \<times> int) list \<Rightarrow> string \<Rightarrow> int" where
  "crimes_at cd station = (case map_of cd station of Some c \<Rightarrow> c | None \<Rightarrow> 5)"

definition weight_safe :: "(string \<times> int) list \<Rightarrow> weight_func" where
  "weight_safe cd current next_station current_line next_line travel_time is_transfer =
     (let crimes = crimes_at cd next_station;
          crime_multiplier = 1 + of_int (min crimes 20) / 10;
          weight = of_int travel_time * crime_multiplier
      in if is_transfer then weight + 5 else weight)"

definition weight_fast :: weight_func where
  "weight_fast current next_station current_line next_line travel_time is_transfer =
     (let weight = of_int travel_time
      in if is_transfer then weight + 8 else weight)"

definition weight_balanced :: "(string \<times> int) list \<Rightarrow> weight_func" where
  "weight_balanced cd current next_station current_line next_line travel_time is_transfer =
     (let crimes = crimes_at cd next_station;
          crime_cost = of_int (min crimes 20) * (1 / 2);
          transfer_cost = (if is_transfer then 6 else 0)
      in of_int travel_time * (1 / 2) + crime_cost * (35 / 100) + transfer_cost * (15 / 100))"

definition generate_safe_route :: "route_optimizer \<Rightarrow> string \<Rightarrow> string \<Rightarrow> route option option" where
  "generate_safe_route ro origin destination =
     find_shortest_path (router ro) origin destination (Some (weight_safe (opt_crime_data ro))) 5"

definition generate_fast_route :: "route_optimizer \<Rightarrow> string \<Rightarrow> string \<Rightarrow> route option option" where
  "generate_fast_route ro origin destination =
     find_shortest_path (router ro) origin destination (Some weight_fast) 5"

definition generate_balanced_route ::
  "route_optimizer \<Rightarrow> string \<Rightarrow> string \<Rightarrow> route option option" where
  "generate_balanced_route ro origin destination =
     find_shortest_path (router ro) origin destination
       (Some (weight_balanced (opt_crime_data ro))) 5"

text \<open>A route with the key \<open>name\<close> added.\<close>

record named_route = route +
  name :: string

definition with_name :: "string \<Rightarrow> route \<Rightarrow> named_route" where
  "with_name nm r =
     \<lparr> stations = stations r, lines = lines r, segments = segments r,
       total_time_minutes = total_time_minutes r, total_transfers = total_transfers r,
       total_stops = total_stops r, name = nm \<rparr>"

text \<open>
  \<open>generate_routes\<close>: the three searches run one after the other, whatever the earlier
  ones returned; as above the outer \<open>Some\<close> says that the call returns.
\<close>

definition generate_routes ::
  "route_optimizer \<Rightarrow> string \<Rightarrow> string \<Rightarrow> named_route list option option" where
  "generate_routes ro origin destination =
     (case generate_safe_route ro origin destination of
        None \<Rightarrow> None
      | Some safe_route \<Rightarrow>
     (case generate_fast_route ro origin destination of
        None \<Rightarrow> None
      | Some fast_route \<Rightarrow>
     (case generate_balanced_route ro origin destination of
        None \<Rightarrow> None
      | Some balanced_route \<Rightarrow>
          let routes =
                (case safe_route of Some r \<Rightarrow> [with_name ''SafeRoute'' r] | None \<Rightarrow> [])
                @ (case fast_route of Some r \<Rightarrow> [with_name ''FastRoute'' r] | None \<Rightarrow> [])
                @ (case balanced_route of Some r \<Rightarrow> [with_name ''BalancedRoute'' r] | None \<Rightarrow> [])
          in Some (if routes = [] then None else Some routes))))"

section \<open>Re-scoring a route\<close>

text \<open>
  The edges a path dictionary went along, read off its predecessor links from the end
  state back to the start: each is (from node, to node, travel time, is\_transfer). As for
  \<open>backtrack\<close>, \<open>None\<close> stands for a walk back that never ends.
\<close>

type_synonym hop = "node \<times> node \<times> int \<times> bool"

partial_function (option) traversed_edges ::
  "prev_map \<Rightarrow> node \<Rightarrow> hop list \<Rightarrow> hop list option" where
  [code]: "traversed_edges prev current acc =
     (case prev current of
        None \<Rightarrow> Some acc
      | Some (p, travel_time, is_transfer) \<Rightarrow>
          traversed_edges prev p ((p, current, travel_time, is_transfer) # acc))"

text \<open>Re-scoring: the cost of an edge and of a list of edges under a weight function.\<close>

definition hop_cost :: "weight_func \<Rightarrow> hop \<Rightarrow> rat" where
  "hop_cost w h = (case h of (u, v, t, b) \<Rightarrow> w (fst u) (fst v) (snd u) (snd v) t b)"

definition path_cost :: "weight_func \<Rightarrow> hop list \<Rightarrow> rat" where
  "path_cost w hs = sum_list (map (hop_cost w) hs)"

text \<open>
  The edges of the route that \<open>find_shortest_path\<close> returns: those of the best path it
  selected; none for the single-station route, and none when nothing is found.
\<close>

definition search_edges ::
  "subway_graph \<Rightarrow> string \<Rightarrow> string \<Rightarrow> weight_func option \<Rightarrow> int \<Rightarrow> hop list" where
  "search_edges sg a b weight_fn max_transfers =
     (if a = b then []
      else case best_path_from sg a b weight_fn max_transfers (get_available_lines sg a) of
             None \<Rightarrow> []
           | Some p \<Rightarrow>
               (case traversed_edges (previous p) (end_state p) [] of
                  None \<Rightarrow> []
                | Some hs \<Rightarrow> hs))"

text \<open>
  An iteration prunes when it visits a node that is not at the destination and does not
  expand it because its transfer count is above the cap.
\<close>

definition prunes_now :: "string \<Rightarrow> int \<Rightarrow> dijkstra_state \<Rightarrow> bool" where
  "prunes_now end_st max_transfers s =
     (case s of (distances, prev, vis, pq) \<Rightarrow>
      case heap_min pq of (d, st, l, xfers) \<Rightarrow>
        (st, l) \<notin> vis \<and> st \<noteq> end_st \<and> max_transfers < xfers)"

text \<open>The run of the loop from a state never prunes.\<close>

function never_prunes ::
  "subway_graph \<Rightarrow> string \<Rightarrow> string \<Rightarrow> weight_func option \<Rightarrow> int
     \<Rightarrow> dijkstra_state \<Rightarrow> bool" where
  "never_prunes sg start_st end_st weight_fn max_transfers s =
     (if snd (snd (snd s)) = [] then True
      else case dijkstra_step sg start_st end_st weight_fn max_transfers s of
             Inl path \<Rightarrow> True
           | Inr s' \<Rightarrow>
               if prunes_now end_st max_transfers s then False
               else never_prunes sg start_st end_st weight_fn max_transfers s')"
  by pat_completeness auto
termination
proof (relation "inv_image (less_than <*lex*> less_than)
    (\<lambda>(sg, ss, es, wfn, mt, s). (unsettled sg s, length (snd (snd (snd s)))))")
  show "wf (inv_image (less_than <*lex*> less_than)
    (\<lambda>(sg, ss, es, wfn, mt, s). (unsettled sg s, length (snd (snd (snd s))))))"
    by (intro wf_inv_image wf_lex_prod wf_less_than)
next
  fix sg ss es wfn mt s s'
  assume "snd (snd (snd s)) \<noteq> []" and "dijkstra_step sg ss es wfn mt s = Inr s'"
  from dijkstra_step_decreases [OF this]
  show "((sg, ss, es, wfn, mt, s'), (sg, ss, es, wfn, mt, s))
    \<in> inv_image (less_than <*lex*> less_than)
      (\<lambda>(sg, ss, es, wfn, mt, s). (unsettled sg s, length (snd (snd (snd s)))))"
    by auto
qed

text \<open>No search of a route, from any start line, prunes.\<close>

definition no_pruning ::
  "subway_graph \<Rightarrow> string \<Rightarrow> string \<Rightarrow> weight_func option \<Rightarrow> int \<Rightarrow> bool" where
  "no_pruning sg a b weight_fn max_transfers =
     list_all (\<lambda>start_line.
         never_prunes sg a b weight_fn max_transfers
           ([(a, start_line) \<mapsto> 0], Map.empty, {}, [(0, a, start_line, 0)]))
       (get_available_lines sg a)"

text \<open>Travel times and crime counts that are not negative.\<close>

definition nonneg_times :: "subway_graph \<Rightarrow> bool" where
  "nonneg_times sg = list_all (\<lambda>(k, es). list_all (\<lambda>(st, l, t). 0 \<le> t) es) (graph sg)"

definition nonneg_crimes :: "(string \<times> int) list \<Rightarrow> bool" where
  "nonneg_crimes cd = list_all (\<lambda>(k, c). 0 \<le> c) cd"

section \<open>Definitions that follow the specification's words\<close>

text \<open>
  The safety percentile as the specification words it: the fraction of all known crime
  values that are at least the route's average, times 100.
\<close>

definition spec_safety_percentile :: "(string \<times> int) list \<Rightarrow> rat \<Rightarrow> rat" where
  "spec_safety_percentile cd avg =
     of_nat (length (filter (\<lambda>c. avg \<le> of_int c) (map snd cd))) / of_nat (length cd) * 100"

text \<open>
  The edges the specification allows a node: to a neighbour on the same line, or to a
  declared transfer target at the same station. Two stations are neighbours on a line when
  they stand next to each other in its station list.
\<close>

definition consecutive :: "string list \<Rightarrow> (string \<times> string) set" where
  "consecutive sts = set (zip sts (tl sts))"

definition line_neighbour ::
  "(string \<times> string list) list \<Rightarrow> string \<Rightarrow> string \<Rightarrow> string \<Rightarrow> bool" where
  "line_neighbour lt line a b =
     list_ex (\<lambda>(l, sts). l = line \<and> ((a, b) \<in> consecutive sts \<or> (b, a) \<in> consecutive sts)) lt"

definition declared_transfer :: "(node \<times> edge list) list \<Rightarrow> node \<Rightarrow> edge \<Rightarrow> bool" where
  "declared_transfer tt k e = list_ex (\<lambda>(k', ts). k' = k \<and> e \<in> set ts) tt"

definition spec_edge_allowed ::
  "(string \<times> string list) list \<Rightarrow> (node \<times> edge list) list \<Rightarrow> node \<Rightarrow> edge \<Rightarrow> bool" where
  "spec_edge_allowed lt tt k e =
     (case k of (st, l) \<Rightarrow> case e of (st', l', t) \<Rightarrow>
        (l' = l \<and> line_neighbour lt l st st') \<or> (st' = st \<and> declared_transfer tt k e))"

text \<open>
  The edges the code gives a node: to a neighbour on the same line, in 2 or 3 minutes, or
  to any target declared for the node in the transfer table, wherever that target is.
\<close>

definition edge_by_design ::
  "(string \<times> string list) list \<Rightarrow> (node \<times> edge list) list \<Rightarrow> node \<Rightarrow> edge \<Rightarrow> bool" where
  "edge_by_design lt tt k e =
     (case k of (st, l) \<Rightarrow> case e of (st', l', t) \<Rightarrow>
        (l' = l \<and> line_neighbour lt l st st' \<and> (t = 2 \<or> t = 3)) \<or> declared_transfer tt k e)"

text \<open>
  The three weight functions as the specification writes them, for base travel time \<open>t\<close>,
  transfer flag \<open>b\<close> and crime count \<open>c\<close>.
\<close>

definition spec_weight_safe :: "int \<Rightarrow> bool \<Rightarrow> int \<Rightarrow> rat" where
  "spec_weight_safe t b c = of_int t * (1 + of_int (min c 20) / 10) + (if b then 5 else 0)"

definition spec_weight_fast :: "int \<Rightarrow> bool \<Rightarrow> rat" where
  "spec_weight_fast t b = of_int t + (if b then 8 else 0)"

definition spec_weight_balanced :: "int \<Rightarrow> bool \<Rightarrow> int \<Rightarrow> rat" where
  "spec_weight_balanced t b c =
     (1 / 2) * of_int t + (35 / 100) * (of_int (min c 20) * (1 / 2))
       + (15 / 100) * (if b then 6 else 0)"

text \<open>The list a search contributes to the result: its route under the given name, if any.\<close>

definition tagged :: "string \<Rightarrow> route option \<Rightarrow> named_route list" where
  "tagged nm found = (case found of None \<Rightarrow> [] | Some r \<Rightarrow> [with_name nm r])"

section \<open>Auxiliary notions\<close>

text \<open>The adjacency list of a key, empty for a missing key.\<close>

definition adj :: "adjacency \<Rightarrow> node \<Rightarrow> edge list" where
  "adj g k = (case map_of g k of None \<Rightarrow> [] | Some es \<Rightarrow> es)"

text \<open>The edges that the pair at index \<open>i\<close> of a line gives to the node \<open>k\<close>.\<close>

definition pair_edges :: "string \<Rightarrow> string list \<Rightarrow> nat \<Rightarrow> node \<Rightarrow> edge list" where
  "pair_edges line sts i k =
     (if k = (sts ! i, line) then [(sts ! (i + 1), line, travel_time_at i (length sts))] else [])
     @ (if k = (sts ! (i + 1), line) then [(sts ! i, line, travel_time_at i (length sts))] else [])"

definition line_edges :: "string \<times> string list \<Rightarrow> node \<Rightarrow> edge set" where
  "line_edges ls k =
     (case ls of (line, sts) \<Rightarrow> \<Union>i \<in> {0..<length sts - 1}. set (pair_edges line sts i k))"

text \<open>
  The predecessor links lead from the node \<open>n\<close> back to the start node \<open>s0\<close> through
  nodes of \<open>V\<close> only, and the start node has no predecessor.
\<close>

inductive chain :: "prev_map \<Rightarrow> node set \<Rightarrow> node \<Rightarrow> node \<Rightarrow> bool"
  for prev :: prev_map and V :: "node set" and s0 :: node where
  chain_start: "s0 \<in> V \<Longrightarrow> prev s0 = None \<Longrightarrow> chain prev V s0 s0"
| chain_step: "n \<in> V \<Longrightarrow> prev n = Some (p, t, b) \<Longrightarrow> chain prev V s0 p \<Longrightarrow> chain prev V s0 n"

text \<open>
  What the loop of \<open>_dijkstra\<close> keeps true of the predecessor links, the visited set and the
  queue, for the start node \<open>s0\<close>.
\<close>

definition links_inv :: "node \<Rightarrow> prev_map \<Rightarrow> node set \<Rightarrow> pq_entry list \<Rightarrow> bool" where
  "links_inv s0 prev vis pq \<longleftrightarrow>
     prev s0 = None
     \<and> (\<forall>n p t b. prev n = Some (p, t, b) \<longrightarrow> p \<in> vis)
     \<and> pq_nodes pq \<subseteq> insert s0 (dom prev)
     \<and> (vis \<noteq> {} \<longrightarrow> s0 \<in> vis)
     \<and> (\<forall>n \<in> vis. chain prev vis s0 n)"

text \<open>An arc of the graph: \<open>v\<close> is in the adjacency list of \<open>u\<close> with travel time \<open>t\<close>.\<close>

definition arc :: "subway_graph \<Rightarrow> node \<Rightarrow> node \<Rightarrow> int \<Rightarrow> bool" where
  "arc sg u v t \<longleftrightarrow> (fst v, snd v, t) \<in> set (get_adjacent_stations sg (fst u) (snd u))"

text \<open>
  A walk from \<open>s0\<close>: a list of consecutive arcs, each with the transfer flag the search
  gives it (the line changes).
\<close>

inductive walk :: "subway_graph \<Rightarrow> node \<Rightarrow> hop list \<Rightarrow> node \<Rightarrow> bool"
  for sg :: subway_graph and s0 :: node where
  walk_nil: "walk sg s0 [] s0"
| walk_snoc: "walk sg s0 hs u \<Longrightarrow> arc sg u v t \<Longrightarrow> walk sg s0 (hs @ [(u, v, t, snd v \<noteq> snd u)]) v"

text \<open>
  The weight the search gives an arc, and the weight of a recorded edge; without a weight
  function it is the travel time.
\<close>

definition edge_weight :: "weight_func option \<Rightarrow> node \<Rightarrow> node \<Rightarrow> int \<Rightarrow> rat" where
  "edge_weight wfn u v t =
     (case wfn of
        Some w \<Rightarrow> w (fst u) (fst v) (snd u) (snd v) t (snd v \<noteq> snd u)
      | None \<Rightarrow> of_int t)"

definition hop_weight :: "weight_func option \<Rightarrow> hop \<Rightarrow> rat" where
  "hop_weight wfn h =
     (case h of (u, v, t, b) \<Rightarrow>
        (case wfn of Some w \<Rightarrow> w (fst u) (fst v) (snd u) (snd v) t b | None \<Rightarrow> of_int t))"

text \<open>The cost of a list of edges.\<close>

definition walk_cost :: "weight_func option \<Rightarrow> hop list \<Rightarrow> rat" where
  "walk_cost wfn hs = sum_list (map (hop_weight wfn) hs)"

text \<open>No arc of the graph has a negative weight.\<close>

definition nonneg_weights :: "subway_graph \<Rightarrow> weight_func option \<Rightarrow> bool" where
  "nonneg_weights sg wfn \<longleftrightarrow> (\<forall>u v t. arc sg u v t \<longrightarrow> 0 \<le> edge_weight wfn u v t)"

text \<open>
  What every run of the loop keeps true of the distances, the predecessor links, the
  visited set and the queue: the start node has distance 0; the distance of any other node
  is that of its predecessor, a visited node, plus the weight of the arc between them;
  visited nodes have a distance; every queue entry is at least the distance of its node;
  every unvisited node with a distance has an entry with that key; the start node is the
  first to be visited.
\<close>

definition run_inv ::
  "subway_graph \<Rightarrow> weight_func option \<Rightarrow> node \<Rightarrow> dist_map \<Rightarrow> prev_map \<Rightarrow> node set
     \<Rightarrow> pq_entry list \<Rightarrow> bool" where
  "run_inv sg wfn s0 di pr vis pq \<longleftrightarrow>
     di s0 = Some 0
     \<and> (\<forall>v d. di v = Some d \<longrightarrow> v \<noteq> s0 \<longrightarrow>
          (\<exists>p t dp. pr v = Some (p, t, snd v \<noteq> snd p) \<and> p \<in> vis \<and> arc sg p v t
             \<and> di p = Some dp \<and> d = dp + edge_weight wfn p v t))
     \<and> vis \<subseteq> dom di
     \<and> (\<forall>d st l t. (d, st, l, t) \<in> set pq \<longrightarrow> (\<exists>d'. di (st, l) = Some d' \<and> d' \<le> d))
     \<and> (\<forall>v d. di v = Some d \<longrightarrow> v \<notin> vis \<longrightarrow> (\<exists>t. (d, fst v, snd v, t) \<in> set pq))
     \<and> (vis \<noteq> {} \<longrightarrow> s0 \<in> vis)"

text \<open>
  What a run that never prunes keeps true in addition, when no weight is negative: the
  distance of a visited node is the least cost of a walk to it; the arcs out of a visited
  node are relaxed; no queue entry is below the distance of a visited node; no visited node
  is at the destination.
\<close>

definition opt_inv ::
  "subway_graph \<Rightarrow> weight_func option \<Rightarrow> node \<Rightarrow> string \<Rightarrow> dist_map \<Rightarrow> node set
     \<Rightarrow> pq_entry list \<Rightarrow> bool" where
  "opt_inv sg wfn s0 es di vis pq \<longleftrightarrow>
     (\<forall>u \<in> vis. \<forall>hs. walk sg s0 hs u \<longrightarrow> (\<exists>du. di u = Some du \<and> du \<le> walk_cost wfn hs))
     \<and> (\<forall>u \<in> vis. \<forall>v t. arc sg u v t \<longrightarrow>
          (\<exists>du dv. di u = Some du \<and> di v = Some dv \<and> dv \<le> du + edge_weight wfn u v t))
     \<and> (\<forall>u \<in> vis. \<forall>d st l t. (d, st, l, t) \<in> set pq \<longrightarrow> (\<exists>du. di u = Some du \<and> du \<le> d))
     \<and> (\<forall>u \<in> vis. fst u \<noteq> es)"

text \<open>The loop over the start lines keeps a path of least distance.\<close>

definition best_so_far ::
  "subway_graph \<Rightarrow> string \<Rightarrow> string \<Rightarrow> weight_func option \<Rightarrow> int \<Rightarrow> string set
     \<Rightarrow> path_info option \<times> rat option \<Rightarrow> bool" where
  "best_so_far sg a b wfn mt seen best \<longleftrightarrow>
     snd best = map_option total_distance (fst best)
     \<and> (\<forall>l \<in> seen. \<forall>q. dijkstra sg a l b wfn mt = Some q \<longrightarrow>
          (\<exists>p. fst best = Some p \<and> total_distance p \<le> total_distance q))"

section \<open>An example network\<close>

text \<open>
  One line from \<open>O\<close> to \<open>D\<close> through six stations with many incidents, a chain of six
  one-minute transfers from \<open>O\<close> through a hub back to the line at \<open>M\<close>, and a
  sixty-minute walk from \<open>O\<close> to \<open>D\<close>.
\<close>

definition hub_lines :: "(string \<times> string list) list" where
  "hub_lines = [(''L'', [''O'', ''H1'', ''H2'', ''H3'', ''H4'', ''H5'', ''H6'', ''M'', ''D''])]"

definition hub_transfers :: "(node \<times> edge list) list" where
  "hub_transfers =
     [((''O'', ''L''), [(''Hub'', ''B'', 1), (''D'', ''Q'', 60)]),
      ((''Hub'', ''B''), [(''Hub'', ''C'', 1)]),
      ((''Hub'', ''C''), [(''Hub'', ''E'', 1)]),
      ((''Hub'', ''E''), [(''Hub'', ''F'', 1)]),
      ((''Hub'', ''F''), [(''Hub'', ''G'', 1)]),
      ((''Hub'', ''G''), [(''M'', ''L'', 1)])]"

definition hub_crime :: "(string \<times> int) list" where
  "hub_crime =
     [(''O'', 0), (''H1'', 20), (''H2'', 20), (''H3'', 20), (''H4'', 20), (''H5'', 20),
      (''H6'', 20), (''M'', 0), (''D'', 0), (''Hub'', 0)]"

definition hub_optimizer :: route_optimizer where
  "hub_optimizer =
     \<lparr> router = SubwayGraph hub_lines hub_transfers, opt_crime_data = hub_crime \<rparr>"

section \<open>Properties of the scores\<close>

subsection \<open>Rounding\<close>

lemma py_round_bounds:
  assumes "of_int a \<le> x" and "x \<le> of_int b"
  shows "a \<le> py_round x \<and> py_round x \<le> b"
proof -
  have lo: "a \<le> \<lfloor>x\<rfloor>"
    using assms(1) by (simp add: le_floor_iff)
  have hi: "\<lfloor>x\<rfloor> \<le> b"
    using assms(2) by (simp add: floor_le_iff)
  have up: "\<lfloor>x\<rfloor> + 1 \<le> b" if "x - of_int \<lfloor>x\<rfloor> \<noteq> 0"
  proof -
    from that have "of_int \<lfloor>x\<rfloor> < x"
      by (metis eq_iff_diff_eq_0 of_int_floor_le order_less_le)
    with assms(2) have "of_int \<lfloor>x\<rfloor> < (of_int b :: rat)"
      by linarith
    then show ?thesis by simp
  qed
  show ?thesis
    unfolding py_round_def Let_def using lo hi up by auto
qed

lemma floor_numeral_div:
  "\<lfloor>(numeral a :: rat) / numeral b\<rfloor> = numeral a div numeral b"
  using floor_divide_of_int_eq [of "numeral a" "numeral b", where ?'a = rat] by simp

subsection \<open>Efficiency\<close>

lemma efficiency_clamp:
  "calculate_efficiency_score n t = py_round (max 0 (min 10 (10 - 3 / 2 * of_int n)))"
  unfolding calculate_efficiency_score_def Let_def
  by (rule arg_cong [where f = py_round]) (auto simp: min_def max_def)

lemma efficiency_table:
  "calculate_efficiency_score 0 t = 10"
  "calculate_efficiency_score 1 t = 8"
  "calculate_efficiency_score 2 t = 7"
  "calculate_efficiency_score 3 t = 6"
  "calculate_efficiency_score 4 t = 4"
  by (simp_all add: calculate_efficiency_score_def py_round_def Let_def floor_numeral_div)

text \<open>
  C3, as stated, fails: with one transfer the score is \<open>round(8.5)\<close>, and Python 3 rounds
  the tie to the even neighbour 8, not to 9.
\<close>

theorem efficiency_one_transfer_not_9: "calculate_efficiency_score 1 12 \<noteq> 9"
  by (simp add: efficiency_table)

text \<open>
  C3, amended: for every transfer count \<open>n \<ge> 0\<close> and all travel times, the efficiency
  score is \<open>max(0, min(10, 10 - 1.5 n))\<close> rounded to the nearest integer with ties to the
  even neighbour; it does not depend on the travel time (and the function reads no
  baseline); 0 transfers score 10, 1 transfer scores 8, 2 score 7, 3 score 6 and 4 score 4.
\<close>

theorem efficiency_score_formula:
  assumes "0 \<le> n"
  shows "calculate_efficiency_score n t = py_round (max 0 (min 10 (10 - 3 / 2 * of_int n)))
    \<and> calculate_efficiency_score n t = calculate_efficiency_score n t'
    \<and> calculate_efficiency_score 0 t = 10
    \<and> calculate_efficiency_score 1 t = 8
    \<and> calculate_efficiency_score 2 t = 7
    \<and> calculate_efficiency_score 3 t = 6
    \<and> calculate_efficiency_score 4 t = 4"
proof -
  have "calculate_efficiency_score n t = calculate_efficiency_score n t'"
    by (simp add: efficiency_clamp)
  then show ?thesis
    using efficiency_clamp [of n t] by (simp add: efficiency_table)
qed

theorem efficiency_score_formula_witness:
  "(0::int) \<le> 5
    \<and> calculate_efficiency_score 5 30 = py_round (max 0 (min 10 (10 - 3 / 2 * of_int 5)))
    \<and> calculate_efficiency_score 5 30 = calculate_efficiency_score 5 45
    \<and> calculate_efficiency_score 5 30 = 2"
proof -
  have "calculate_efficiency_score 5 30 = 2"
    by (simp add: calculate_efficiency_score_def py_round_def Let_def floor_numeral_div)
  with efficiency_score_formula [of 5 30 45] show ?thesis by simp
qed

subsection \<open>Safety and reliability\<close>

lemma safety_percentile_nonneg: "0 \<le> safety_percentile sc avg"
proof -
  have "length (filter (\<lambda>c. avg \<le> of_int c) (map snd (crime_data sc)))
      \<le> length (map snd (crime_data sc))"
    by (rule length_filter_le)
  then show ?thesis
    unfolding safety_percentile_def Let_def by (auto intro!: divide_nonneg_nonneg)
qed

lemma reliability_percentile_nonneg: "0 \<le> reliability_percentile sc avg"
  unfolding reliability_percentile_def Let_def by (auto intro!: divide_nonneg_nonneg)

lemma tier_bounds:
  fixes p :: rat
  assumes "0 \<le> p"
  defines "s \<equiv> (if 90 \<le> p then 10
               else if 75 \<le> p then 8 + (p - 75) / 15
               else if 50 \<le> p then 6 + (p - 50) / 25
               else if 25 \<le> p then 4 + (p - 25) / 25
               else 2 + p / 25)"
  shows "2 \<le> py_round s \<and> py_round s \<le> 10"
proof (rule py_round_bounds)
  show "rat_of_int 2 \<le> s" using assms by auto
  show "s \<le> rat_of_int 10" using assms by auto
qed

lemma safety_bounds:
  "sts \<noteq> [] \<Longrightarrow>
     2 \<le> calculate_safety_score sc sts \<and> calculate_safety_score sc sts \<le> 10"
  unfolding calculate_safety_score_def Let_def
  using tier_bounds [OF safety_percentile_nonneg] by simp

lemma reliability_bounds:
  "lns \<noteq> [] \<Longrightarrow>
     2 \<le> calculate_reliability_score sc lns \<and> calculate_reliability_score sc lns \<le> 10"
  unfolding calculate_reliability_score_def Let_def
  using tier_bounds [OF reliability_percentile_nonneg] by simp

text \<open>
  C10: for every calculator and every non-empty station list the safety score is an
  integer from 2 to 10, and it is 5 for the empty list; the reliability score obeys the
  same bounds on non-empty line lists (and is 5 on the empty one).
\<close>

theorem score_bounds:
  "(sts \<noteq> [] \<longrightarrow>
      2 \<le> calculate_safety_score sc sts \<and> calculate_safety_score sc sts \<le> 10)
   \<and> calculate_safety_score sc [] = 5
   \<and> (lns \<noteq> [] \<longrightarrow>
      2 \<le> calculate_reliability_score sc lns \<and> calculate_reliability_score sc lns \<le> 10)
   \<and> calculate_reliability_score sc [] = 5"
  using safety_bounds [of sts sc] reliability_bounds [of lns sc]
  by (simp add: calculate_safety_score_def calculate_reliability_score_def)

theorem score_bounds_witness:
  "[''Canal Street'', ''Fulton Street''] \<noteq> []
   \<and> 2 \<le> calculate_safety_score
        (ScoreCalculator [(''Canal Street'', 0), (''Fulton Street'', 10)] [(''A'', PerfNum 82)])
        [''Canal Street'', ''Fulton Street'']
   \<and> calculate_safety_score
        (ScoreCalculator [(''Canal Street'', 0), (''Fulton Street'', 10)] [(''A'', PerfNum 82)])
        [''Canal Street'', ''Fulton Street''] \<le> 10
   \<and> [''A''] \<noteq> []
   \<and> 2 \<le> calculate_reliability_score
        (ScoreCalculator [(''Canal Street'', 0), (''Fulton Street'', 10)] [(''A'', PerfNum 82)])
        [''A'']
   \<and> calculate_reliability_score
        (ScoreCalculator [(''Canal Street'', 0), (''Fulton Street'', 10)] [(''A'', PerfNum 82)])
        [''A''] \<le> 10"
  using score_bounds [of "[''Canal Street'', ''Fulton Street'']"
      "ScoreCalculator [(''Canal Street'', 0), (''Fulton Street'', 10)] [(''A'', PerfNum 82)]"
      "[''A'']"]
  by simp

text \<open>
  C1: the percentile the claim describes, the share of the known crime values that are
  at least the route's average, against the one the code computes. With the crime map
  \<open>{Canal Street: 0, Fulton Street: 10}\<close> the route \<open>[Canal Street]\<close> has average 0; the
  claim's percentile is 100, the code's is 0 and the score is 2, while the route through
  the station with the most incidents, \<open>[Fulton Street]\<close>, scores 6.
\<close>

theorem safety_percentile_inverted:
  "route_avg_crime
      (ScoreCalculator [(''Canal Street'', 0), (''Fulton Street'', 10)] []) [''Canal Street''] = 0
   \<and> spec_safety_percentile [(''Canal Street'', 0), (''Fulton Street'', 10)] 0 = 100
   \<and> safety_percentile
        (ScoreCalculator [(''Canal Street'', 0), (''Fulton Street'', 10)] []) 0 = 0
   \<and> calculate_safety_score
        (ScoreCalculator [(''Canal Street'', 0), (''Fulton Street'', 10)] []) [''Canal Street''] = 2
   \<and> calculate_safety_score
        (ScoreCalculator [(''Canal Street'', 0), (''Fulton Street'', 10)] []) [''Fulton Street''] = 6"
  by (simp add: calculate_safety_score_def ScoreCalculator_def safety_percentile_def
      spec_safety_percentile_def route_avg_crime_def py_round_def Let_def)

section \<open>Properties of the graph\<close>

lemma adj_append_edge:
  "adj (append_edge g k e) k' = (if k' = k then adj g k @ [e] else adj g k')"
  by (induction g k e rule: append_edge.induct) (auto simp: adj_def)

lemma adj_ensure_key: "adj (ensure_key g k) k' = adj g k'"
proof (cases "k \<in> fst ` set g")
  case True
  then show ?thesis by (simp add: ensure_key_def)
next
  case False
  then have "map_of g k = None" by (simp add: map_of_eq_None_iff)
  then show ?thesis
    using False by (cases "map_of g k'") (auto simp: ensure_key_def adj_def map_add_def)
qed

lemma adj_fold_append:
  "adj (fold (\<lambda>e g'. append_edge g' k e) ts g) k' = (if k' = k then adj g k @ ts else adj g k')"
  by (induction ts arbitrary: g) (auto simp: adj_append_edge)

lemma adj_add_transfers:
  "adj (add_transfers (k, ts) g) k' = (if k' = k then adj g k @ ts else adj g k')"
  by (simp add: add_transfers_def adj_fold_append adj_ensure_key)

lemma set_adj_fold_add_transfers:
  "set (adj (fold add_transfers tt g) k) = set (adj g k) \<union> \<Union> {set ts | ts. (k, ts) \<in> set tt}"
proof (induction tt arbitrary: g)
  case Nil
  then show ?case by simp
next
  case (Cons kt tt)
  obtain k0 ts0 where kt: "kt = (k0, ts0)" by (cases kt)
  show ?case
    unfolding kt by (auto simp: Cons.IH adj_add_transfers)
qed

lemma adj_add_line_pair:
  "adj (add_line_pair line sts i g) k = adj g k @ pair_edges line sts i k"
  by (auto simp: add_line_pair_def Let_def adj_append_edge pair_edges_def)

lemma set_adj_fold_pairs:
  "set (adj (fold (add_line_pair line sts) is g) k)
     = set (adj g k) \<union> (\<Union>i \<in> set is. set (pair_edges line sts i k))"
  by (induction "is" arbitrary: g) (auto simp: adj_add_line_pair)

lemma set_adj_add_line:
  "set (adj (add_line ls g) k) = set (adj g k) \<union> line_edges ls k"
  by (cases ls) (simp add: add_line_def set_adj_fold_pairs line_edges_def)

lemma set_adj_fold_add_line:
  "set (adj (fold add_line lt g) k) = set (adj g k) \<union> (\<Union>ls \<in> set lt. line_edges ls k)"
  by (induction lt arbitrary: g) (auto simp: set_adj_add_line)

lemma set_adjacent_SubwayGraph:
  "set (get_adjacent_stations (SubwayGraph lt tt) st l)
     = (\<Union>ls \<in> set lt. line_edges ls (st, l)) \<union> \<Union> {set ts | ts. ((st, l), ts) \<in> set tt}"
proof -
  have "get_adjacent_stations (SubwayGraph lt tt) st l = adj (build_graph lt tt) (st, l)"
    by (simp add: get_adjacent_stations_def SubwayGraph_def adj_def)
  moreover have "adj [] (st, l) = []" by (simp add: adj_def)
  ultimately show ?thesis
    by (simp add: build_graph_def set_adj_fold_add_transfers set_adj_fold_add_line)
qed

lemma validate_station_SubwayGraph:
  "validate_station (SubwayGraph lt tt) s \<longleftrightarrow> s \<in> set (concat (map snd lt))"
  by (simp add: validate_station_def SubwayGraph_def get_all_stations_def)

lemma consecutive_nth: "i + 1 < length sts \<Longrightarrow> (sts ! i, sts ! (i + 1)) \<in> consecutive sts"
proof -
  assume a: "i + 1 < length sts"
  then have "i < length (zip sts (tl sts))" by simp
  then have "zip sts (tl sts) ! i \<in> set (zip sts (tl sts))" by (rule nth_mem)
  moreover have "zip sts (tl sts) ! i = (sts ! i, sts ! (i + 1))"
    using a by (simp add: nth_tl)
  ultimately show ?thesis by (simp add: consecutive_def)
qed

lemma line_edges_design:
  assumes "ls \<in> set lt" and "e \<in> line_edges ls (st, l)"
  shows "edge_by_design lt tt (st, l) e"
proof -
  obtain line sts where ls: "ls = (line, sts)" by (cases ls)
  from assms(2) ls obtain i where i: "i < length sts - 1" and e: "e \<in> set (pair_edges line sts i (st, l))"
    by (auto simp: line_edges_def)
  from i have i1: "i + 1 < length sts" by simp
  have tt: "travel_time_at i (length sts) = 2 \<or> travel_time_at i (length sts) = 3"
    by (simp add: travel_time_at_def)
  from e consider
      (fwd) "st = sts ! i" "l = line" "e = (sts ! (i + 1), line, travel_time_at i (length sts))"
    | (bwd) "st = sts ! (i + 1)" "l = line" "e = (sts ! i, line, travel_time_at i (length sts))"
    by (auto simp: pair_edges_def split: if_splits)
  then show ?thesis
  proof cases
    case fwd
    have "line_neighbour lt line (sts ! i) (sts ! (i + 1))"
      unfolding line_neighbour_def list_ex_iff
      using assms(1) ls consecutive_nth [OF i1] by blast
    then show ?thesis using fwd tt by (simp add: edge_by_design_def)
  next
    case bwd
    have "line_neighbour lt line (sts ! (i + 1)) (sts ! i)"
      unfolding line_neighbour_def list_ex_iff
      using assms(1) ls consecutive_nth [OF i1] by blast
    then show ?thesis using bwd tt by (simp add: edge_by_design_def)
  qed
qed

lemma times_square_to_grand_central:
  "(''Grand Central-42nd Street'', ''4'', 3)
     \<in> set (get_adjacent_stations nyc_subway ''42nd Street-Times Square'' ''1'')"
  unfolding nyc_subway_def set_adjacent_SubwayGraph
proof (rule UnI2, rule UnionI)
  show "set [(''42nd Street-Times Square'', ''2'', 1),
         (''42nd Street-Times Square'', ''3'', 1), (''42nd Street-Times Square'', ''Q'', 2),
         (''42nd Street-Times Square'', ''N'', 2), (''42nd Street-Times Square'', ''R'', 2),
         (''42nd Street-Times Square'', ''W'', 2), (''42nd Street-Times Square'', ''S'', 1),
         (''Grand Central-42nd Street'', ''4'', 3), (''Grand Central-42nd Street'', ''5'', 3),
         (''Grand Central-42nd Street'', ''6'', 3), (''Grand Central-42nd Street'', ''7'', 3)]
       \<in> {set ts | ts. ((''42nd Street-Times Square'', ''1''), ts) \<in> set TRANSFER_POINTS}"
    by (simp add: TRANSFER_POINTS_def)
  show "(''Grand Central-42nd Street'', ''4'', 3)
       \<in> set [(''42nd Street-Times Square'', ''2'', 1),
         (''42nd Street-Times Square'', ''3'', 1), (''42nd Street-Times Square'', ''Q'', 2),
         (''42nd Street-Times Square'', ''N'', 2), (''42nd Street-Times Square'', ''R'', 2),
         (''42nd Street-Times Square'', ''W'', 2), (''42nd Street-Times Square'', ''S'', 1),
         (''Grand Central-42nd Street'', ''4'', 3), (''Grand Central-42nd Street'', ''5'', 3),
         (''Grand Central-42nd Street'', ''6'', 3), (''Grand Central-42nd Street'', ''7'', 3)]"
    by simp
qed

text \<open>
  C4, as stated, fails: the node (42nd Street-Times Square, 1) of the graph built from the
  static tables has an edge to (Grand Central-42nd Street, 4), which is neither on line 1
  nor at the same station.
\<close>

theorem transfer_edge_leaves_station:
  "(''Grand Central-42nd Street'', ''4'', 3)
     \<in> set (get_adjacent_stations nyc_subway ''42nd Street-Times Square'' ''1'')
   \<and> \<not> spec_edge_allowed SUBWAY_LINES TRANSFER_POINTS (''42nd Street-Times Square'', ''1'')
        (''Grand Central-42nd Street'', ''4'', 3)"
  using times_square_to_grand_central by (simp add: spec_edge_allowed_def)

text \<open>
  C4, amended: in the graph built from the topology tables, every outgoing edge of a node
  (station, line) goes either to the previous or next station of that same line's ordered
  station list, on the same line and in 2 or 3 minutes, or to a target declared for that
  node in the transfer table; a declared target need not be at the same station, nor on a
  different line.
\<close>

theorem edges_by_design:
  assumes "e \<in> set (get_adjacent_stations (SubwayGraph lt tt) st l)"
  shows "edge_by_design lt tt (st, l) e"
proof -
  from assms consider (line) ls where "ls \<in> set lt" "e \<in> line_edges ls (st, l)"
    | (transfer) ts where "((st, l), ts) \<in> set tt" "e \<in> set ts"
    unfolding set_adjacent_SubwayGraph by blast
  then show ?thesis
  proof cases
    case line
    then show ?thesis by (rule line_edges_design)
  next
    case transfer
    then have "declared_transfer tt (st, l) e"
      unfolding declared_transfer_def list_ex_iff by blast
    then show ?thesis by (cases e) (simp add: edge_by_design_def)
  qed
qed

theorem edges_by_design_witness:
  "(''Grand Central-42nd Street'', ''4'', 3)
     \<in> set (get_adjacent_stations (SubwayGraph SUBWAY_LINES TRANSFER_POINTS)
         ''42nd Street-Times Square'' ''1'')
   \<and> edge_by_design SUBWAY_LINES TRANSFER_POINTS (''42nd Street-Times Square'', ''1'')
        (''Grand Central-42nd Street'', ''4'', 3)"
  using edges_by_design [of "(''Grand Central-42nd Street'', ''4'', 3)" SUBWAY_LINES
      TRANSFER_POINTS "''42nd Street-Times Square''" "''1''"] times_square_to_grand_central
  by (simp add: nyc_subway_def)

section \<open>Properties of the path finder\<close>

lemma canal_street_exists: "validate_station nyc_subway ''Canal Street''"
  unfolding nyc_subway_def validate_station_SubwayGraph
  by (simp add: SUBWAY_LINES_def)

lemma nonexistent_station: "\<not> validate_station nyc_subway ''Nonexistent Station''"
  unfolding nyc_subway_def validate_station_SubwayGraph
  by (simp add: SUBWAY_LINES_def)

text \<open>
  C5: for every station \<open>s\<close> of the graph, every weight function and every transfer cap,
  \<open>find_shortest_path(s, s, ...)\<close> returns the route with stations \<open>[s]\<close>, no lines, no
  segments, total time 0, no transfers and one stop.
\<close>

theorem same_station_route:
  assumes "validate_station sg s"
  shows "find_shortest_path sg s s wfn mt =
     Some (Some \<lparr> stations = [s], lines = [], segments = [],
                   total_time_minutes = 0, total_transfers = 0, total_stops = 1 \<rparr>)"
  using assms by (simp add: find_shortest_path_def)

theorem same_station_route_witness:
  "validate_station nyc_subway ''Canal Street''
   \<and> find_shortest_path nyc_subway ''Canal Street'' ''Canal Street'' (Some weight_fast) 5 =
     Some (Some \<lparr> stations = [''Canal Street''], lines = [], segments = [],
                   total_time_minutes = 0, total_transfers = 0, total_stops = 1 \<rparr>)"
  using same_station_route [OF canal_street_exists, of "Some weight_fast" 5] canal_street_exists
  by simp

text \<open>
  C8: if the origin or the destination is not a station of the network,
  \<open>find_shortest_path\<close> returns \<open>None\<close> (it returns, and what it returns is the not-found
  value), whatever the weight function and the transfer cap.
\<close>

theorem unknown_station_not_found:
  assumes "\<not> validate_station sg a \<or> \<not> validate_station sg b"
  shows "find_shortest_path sg a b wfn mt = Some None"
  using assms by (auto simp: find_shortest_path_def)

theorem unknown_station_not_found_witness:
  "\<not> validate_station nyc_subway ''Nonexistent Station''
   \<and> find_shortest_path nyc_subway ''Nonexistent Station'' ''42nd Street-Times Square''
        (Some weight_fast) 5 = Some None"
  using unknown_station_not_found [of nyc_subway "''Nonexistent Station''"
      "''42nd Street-Times Square''" "Some weight_fast" 5] nonexistent_station
  by simp

subsection \<open>The predecessor links\<close>

lemma chain_mono: "chain prev V s0 n \<Longrightarrow> V \<subseteq> V' \<Longrightarrow> chain prev V' s0 n"
  by (induction rule: chain.induct) (auto intro: chain.intros)

lemma chain_update:
  assumes "chain prev V s0 n" and "m \<notin> V"
  shows "chain (prev(m \<mapsto> x)) V s0 n"
  using assms
proof (induction rule: chain.induct)
  case chain_start
  then show ?case by (auto intro: chain.chain_start)
next
  case (chain_step n p t b)
  then have "(prev(m \<mapsto> x)) n = Some (p, t, b)" by auto
  with chain_step show ?case by (auto intro: chain.chain_step)
qed

lemma links_inv_init: "links_inv (a, l) Map.empty {} [(0, a, l, 0)]"
  by (simp add: links_inv_def pq_nodes_def)

lemma links_inv_relax:
  assumes "links_inv s0 prev vis pq" and "cur \<in> vis"
    and "relax wfn cur d t vis e (di, prev, pq) = (di', prev', pq')"
  shows "links_inv s0 prev' vis pq'"
proof (cases "prev' = prev \<and> pq' = pq")
  case True
  with assms(1) show ?thesis by simp
next
  case False
  obtain st l tt where e: "e = (st, l, tt)" by (cases e)
  from False assms(3) e obtain nd nt where
    nv: "(st, l) \<notin> vis"
    and p': "prev' = prev((st, l) \<mapsto> (cur, tt, l \<noteq> snd cur))"
    and q': "pq' = heappush pq (nd, st, l, nt)"
    by (auto simp: relax_def Let_def split: if_splits)
  from assms(1) assms(2) have s0v: "s0 \<in> vis" by (auto simp: links_inv_def)
  with nv have ne: "(st, l) \<noteq> s0" by auto
  have "prev' s0 = None" using assms(1) ne p' by (auto simp: links_inv_def)
  moreover have "\<forall>n p t b. prev' n = Some (p, t, b) \<longrightarrow> p \<in> vis"
    using assms(1) assms(2) p' by (auto simp: links_inv_def)
  moreover have "pq_nodes pq' \<subseteq> insert s0 (dom prev')"
    using assms(1) p' q' by (auto simp: links_inv_def pq_nodes_heappush)
  moreover have "\<forall>n \<in> vis. chain prev' vis s0 n"
    using assms(1) nv p' by (auto simp: links_inv_def intro: chain_update)
  ultimately show ?thesis using s0v by (simp add: links_inv_def)
qed

lemma links_inv_fold_relax:
  assumes "links_inv s0 prev vis pq" and "cur \<in> vis"
    and "fold (relax wfn cur d t vis) es (di, prev, pq) = (di', prev', pq')"
  shows "links_inv s0 prev' vis pq'"
  using assms
proof (induction es arbitrary: di prev pq)
  case Nil
  then show ?case by simp
next
  case (Cons e es)
  obtain di1 pr1 pq1 where r: "relax wfn cur d t vis e (di, prev, pq) = (di1, pr1, pq1)"
    by (metis prod_cases3)
  from links_inv_relax [OF Cons.prems(1,2) r] have "links_inv s0 pr1 vis pq1" .
  moreover from Cons.prems(3) r
  have "fold (relax wfn cur d t vis) es (di1, pr1, pq1) = (di', prev', pq')" by simp
  ultimately show ?case using Cons.IH Cons.prems(2) by blast
qed

text \<open>visiting the popped node\<close>
lemma links_inv_visit:
  assumes "links_inv s0 prev vis pq" and "c \<in> pq_nodes pq" and "pq_nodes pq1 \<subseteq> pq_nodes pq"
  shows "links_inv s0 prev (insert c vis) pq1"
proof -
  have a: "prev s0 = None" and b: "\<forall>n p t b. prev n = Some (p, t, b) \<longrightarrow> p \<in> vis"
    and cc: "pq_nodes pq \<subseteq> insert s0 (dom prev)" and e: "vis \<noteq> {} \<longrightarrow> s0 \<in> vis"
    and f: "\<forall>n \<in> vis. chain prev vis s0 n"
    using assms(1) by (auto simp: links_inv_def)
  have s0: "s0 \<in> insert c vis"
  proof (cases "vis = {}")
    case True
    with b have "dom prev = {}" by (auto simp: dom_def)
    with cc assms(2) show ?thesis by auto
  next
    case False
    with e show ?thesis by simp
  qed
  have old: "chain prev (insert c vis) s0 n" if "n \<in> vis" for n
    using f that by (auto intro: chain_mono)
  have new: "chain prev (insert c vis) s0 c"
  proof (cases "c = s0")
    case True
    with a show ?thesis by (auto intro: chain.chain_start)
  next
    case False
    with cc assms(2) obtain p t b where pc: "prev c = Some (p, t, b)" by (auto simp: dom_def)
    with b have "p \<in> vis" by blast
    then have "chain prev (insert c vis) s0 p" by (rule old)
    with pc show ?thesis by (auto intro: chain.chain_step)
  qed
  show ?thesis
    unfolding links_inv_def using a b cc assms(3) s0 old new by auto
qed

lemma pq_nodes_remove1: "pq_nodes (remove1 x pq) \<subseteq> pq_nodes pq"
  unfolding pq_nodes_def by (intro image_mono set_remove1_subset)

lemma heap_min_node:
  assumes "pq \<noteq> []" and "heap_min pq = (d, st, l, t)"
  shows "(st, l) \<in> pq_nodes pq"
  using heap_min_in [OF assms(1)] assms(2) by (force simp: pq_nodes_def)

lemma dijkstra_step_eq:
  assumes "heap_min pq = (cd, cst, cl, ct)"
  shows "dijkstra_step sg ss es wfn mt (di, prev, vis, pq) =
     (if (cst, cl) \<in> vis then Inr (di, prev, vis, remove1 (cd, cst, cl, ct) pq)
      else if cst = es then
        Inl \<lparr> start_station = ss, end_station = es, total_distance = cd,
              visited = insert (cst, cl) vis, previous = prev, end_state = (cst, cl),
              transfers = ct \<rparr>
      else if mt < ct then Inr (di, prev, insert (cst, cl) vis, remove1 (cd, cst, cl, ct) pq)
      else
        (let r = fold (relax wfn (cst, cl) cd ct (insert (cst, cl) vis))
                   (get_adjacent_stations sg cst cl) (di, prev, remove1 (cd, cst, cl, ct) pq)
         in Inr (fst r, fst (snd r), insert (cst, cl) vis, snd (snd r))))"
  using assms by (simp add: dijkstra_step_def heappop_def Let_def split: prod.splits)

lemma links_inv_step:
  assumes "links_inv s0 prev vis pq" and "pq \<noteq> []"
    and "dijkstra_step sg ss es wfn mt (di, prev, vis, pq) = Inr (di', prev', vis', pq')"
  shows "links_inv s0 prev' vis' pq'"
proof -
  obtain cd cst cl ct where m: "heap_min pq = (cd, cst, cl, ct)" by (metis prod_cases4)
  note node = heap_min_node [OF assms(2) m]
  let ?pq1 = "remove1 (cd, cst, cl, ct) pq"
  show ?thesis
  proof (cases "(cst, cl) \<in> vis")
    case True
    with assms(3) have "prev' = prev" "vis' = vis" "pq' = ?pq1"
      by (auto simp: dijkstra_step_eq [OF m])
    with assms(1) pq_nodes_remove1 [of "(cd, cst, cl, ct)" pq] show ?thesis
      by (auto simp: links_inv_def)
  next
    case False
    have v: "links_inv s0 prev (insert (cst, cl) vis) ?pq1"
      using links_inv_visit [OF assms(1) node pq_nodes_remove1] .
    show ?thesis
    proof (cases "cst = es \<or> mt < ct")
      case True
      with assms(3) False have "prev' = prev" "vis' = insert (cst, cl) vis" "pq' = ?pq1"
        by (auto simp: dijkstra_step_eq [OF m] split: if_splits)
      with v show ?thesis by simp
    next
      case nt: False
      obtain d2 p2 pq2 where f: "fold (relax wfn (cst, cl) cd ct (insert (cst, cl) vis))
          (get_adjacent_stations sg cst cl) (di, prev, ?pq1) = (d2, p2, pq2)"
        by (metis prod_cases3)
      with assms(3) False nt have "prev' = p2" "vis' = insert (cst, cl) vis" "pq' = pq2"
        by (auto simp: dijkstra_step_eq [OF m] Let_def)
      with links_inv_fold_relax [OF v _ f] show ?thesis by simp
    qed
  qed
qed

lemma links_inv_result:
  assumes "links_inv s0 prev vis pq" and "pq \<noteq> []"
    and "dijkstra_step sg ss es wfn mt (di, prev, vis, pq) = Inl path"
  shows "chain (previous path) (visited path) s0 (end_state path)
     \<and> fst (end_state path) = es \<and> start_station path = ss \<and> end_station path = es"
proof -
  obtain cd cst cl ct where m: "heap_min pq = (cd, cst, cl, ct)" by (metis prod_cases4)
  note node = heap_min_node [OF assms(2) m]
  from assms(3) have nv: "(cst, cl) \<notin> vis" and es: "cst = es"
    and path: "path = \<lparr> start_station = ss, end_station = es, total_distance = cd,
        visited = insert (cst, cl) vis, previous = prev, end_state = (cst, cl), transfers = ct \<rparr>"
    by (auto simp: dijkstra_step_eq [OF m] Let_def split: if_splits)
  from links_inv_visit [OF assms(1) node pq_nodes_remove1 [of "(cd, cst, cl, ct)"]]
  have "chain prev (insert (cst, cl) vis) s0 (cst, cl)" by (auto simp: links_inv_def)
  with path es show ?thesis by simp
qed

lemma dijkstra_loop_chain:
  assumes "dijkstra_loop sg ss es wfn mt s = Some path"
    and "links_inv s0 (fst (snd s)) (fst (snd (snd s))) (snd (snd (snd s)))"
  shows "chain (previous path) (visited path) s0 (end_state path)
     \<and> fst (end_state path) = es \<and> start_station path = ss \<and> end_station path = es"
  using assms
proof (induction sg ss es wfn mt s rule: dijkstra_loop.induct)
  case (1 sg ss es wfn mt s)
  obtain di prev vis pq where s: "s = (di, prev, vis, pq)" by (metis prod_cases4)
  from "1.prems"(1) s have ne: "pq \<noteq> []"
    by (subst (asm) dijkstra_loop.simps) (auto split: if_splits)
  show ?case
  proof (cases "dijkstra_step sg ss es wfn mt s")
    case (Inl p)
    with "1.prems"(1) ne s have "p = path"
      by (subst (asm) dijkstra_loop.simps) auto
    with Inl s "1.prems"(2) ne links_inv_result show ?thesis by auto
  next
    case (Inr s')
    obtain di' prev' vis' pq' where s': "s' = (di', prev', vis', pq')" by (metis prod_cases4)
    from "1.prems"(1) ne s Inr have loop: "dijkstra_loop sg ss es wfn mt s' = Some path"
      by (subst (asm) dijkstra_loop.simps) auto
    from links_inv_step [OF _ ne] "1.prems"(2) Inr s s'
    have "links_inv s0 prev' vis' pq'" by auto
    with "1.IH" [OF _ Inr loop] ne s s' show ?thesis by simp
  qed
qed

lemma dijkstra_chain:
  assumes "dijkstra sg a l b wfn mt = Some path"
  shows "chain (previous path) (visited path) (a, l) (end_state path)
     \<and> fst (end_state path) = b \<and> start_station path = a \<and> end_station path = b"
  using dijkstra_loop_chain [OF assms [unfolded dijkstra_def], of "(a, l)"] links_inv_init
  by simp


lemma backtrack_chain:
  assumes "chain prev V s0 n"
  shows "\<exists>ps pl tt' tr'. backtrack prev n sts lns tt tr = Some (s0, ps @ sts, pl @ lns, tt', tr')
     \<and> length pl = length ps \<and> (n \<noteq> s0 \<longrightarrow> ps \<noteq> [] \<and> last ps = fst n)"
  using assms
proof (induction arbitrary: sts lns tt tr rule: chain.induct)
  case chain_start
  then show ?case by (subst backtrack.simps) simp
next
  case (chain_step n p t b)
  from chain_step.IH [of "fst n # sts" "snd n # lns" "tt + t" "if b then tr + 1 else tr"]
  obtain ps pl tt' tr' where
    bt: "backtrack prev p (fst n # sts) (snd n # lns) (tt + t) (if b then tr + 1 else tr)
       = Some (s0, ps @ fst n # sts, pl @ snd n # lns, tt', tr')"
    and len: "length pl = length ps"
    by blast
  have "backtrack prev n sts lns tt tr
      = Some (s0, (ps @ [fst n]) @ sts, (pl @ [snd n]) @ lns, tt', tr')"
    using chain_step.hyps(2) bt by (subst backtrack.simps) simp
  with len show ?case by (intro exI [of _ "ps @ [fst n]"] exI [of _ "pl @ [snd n]"]) auto
qed

lemma unique_lines_fold:
  "distinct_adj u \<Longrightarrow>
     distinct_adj (fold (\<lambda>line u. if u = [] \<or> last u \<noteq> line then u @ [line] else u) lns u)"
  by (induction lns arbitrary: u) (auto simp: distinct_adj_append_iff)

lemma distinct_adj_unique_lines: "distinct_adj (unique_lines lns)"
  unfolding unique_lines_def by (rule unique_lines_fold) simp

lemma extract_route_chain:
  assumes "chain (previous path) (visited path) s0 (end_state path)"
  shows "\<exists>r. extract_route path = Some r
     \<and> hd (stations r) = fst s0
     \<and> last (stations r) = fst (end_state path)
     \<and> int (length (stations r)) = total_stops r
     \<and> (end_state path \<noteq> s0 \<longrightarrow> 2 \<le> total_stops r)
     \<and> distinct_adj (lines r)"
proof -
  from backtrack_chain [OF assms, of "[]" "[]" 0 0]
  obtain ps pl tt' tr' where
    bt: "backtrack (previous path) (end_state path) [] [] 0 0 = Some (s0, ps, pl, tt', tr')"
    and ne: "end_state path \<noteq> s0 \<longrightarrow> ps \<noteq> [] \<and> last ps = fst (end_state path)"
    by auto
  have same: "end_state path = s0 \<longrightarrow> ps = []"
  proof
    assume eq: "end_state path = s0"
    from assms have "previous path s0 = None" by (induction rule: chain.induct) auto
    with eq bt show "ps = []" by (subst (asm) backtrack.simps) simp
  qed
  have "ps \<noteq> [] \<longrightarrow> Suc 0 \<le> length ps" by (cases ps) auto
  then show ?thesis
    using bt ne same by (auto simp: extract_route_def Let_def distinct_adj_unique_lines)
qed

lemma try_start_line_cases:
  "try_start_line sg a b wfn mt l best = best
   \<or> (\<exists>p. dijkstra sg a l b wfn mt = Some p
        \<and> try_start_line sg a b wfn mt l best = (Some p, Some (total_distance p)))"
  by (auto simp: try_start_line_def split: option.splits)

lemma fold_try_start_line:
  assumes "fst (fold (try_start_line sg a b wfn mt) ls best) = Some p"
  shows "fst best = Some p \<or> (\<exists>l \<in> set ls. dijkstra sg a l b wfn mt = Some p)"
  using assms
proof (induction ls arbitrary: best)
  case Nil
  then show ?case by simp
next
  case (Cons l ls)
  from Cons.prems have "fst (fold (try_start_line sg a b wfn mt) ls
      (try_start_line sg a b wfn mt l best)) = Some p" by simp
  from Cons.IH [OF this] try_start_line_cases [of sg a b wfn mt l best]
  show ?case by auto
qed

lemma best_path_from_dijkstra:
  assumes "best_path_from sg a b wfn mt ls = Some p"
  shows "\<exists>l \<in> set ls. dijkstra sg a l b wfn mt = Some p"
  using fold_try_start_line [OF assms [unfolded best_path_from_def]] by simp

lemma best_path_extract:
  assumes "best_path_from sg a b wfn mt ls = Some p" and "a \<noteq> b"
  shows "\<exists>r. extract_route p = Some r
     \<and> hd (stations r) = a \<and> last (stations r) = b
     \<and> int (length (stations r)) = total_stops r \<and> 2 \<le> total_stops r
     \<and> distinct_adj (lines r)"
proof -
  from best_path_from_dijkstra [OF assms(1)] obtain l where "dijkstra sg a l b wfn mt = Some p"
    by blast
  from dijkstra_chain [OF this]
  have c: "chain (previous p) (visited p) (a, l) (end_state p)" and e: "fst (end_state p) = b"
    by auto
  from e assms(2) have "end_state p \<noteq> (a, l)" by auto
  with extract_route_chain [OF c] e show ?thesis by auto
qed

text \<open>Every call of \<open>find_shortest_path\<close> returns.\<close>

lemma find_shortest_path_returns:
  "\<exists>res. find_shortest_path sg a b wfn mt = Some res"
proof (cases "validate_station sg a \<and> validate_station sg b \<and> a \<noteq> b
    \<and> get_available_lines sg a \<noteq> []")
  case False
  then show ?thesis by (auto simp: find_shortest_path_def Let_def)
next
  case True
  show ?thesis
  proof (cases "best_path_from sg a b wfn mt (get_available_lines sg a)")
    case None
    with True show ?thesis by (simp add: find_shortest_path_def Let_def)
  next
    case (Some p)
    from best_path_extract [OF Some] True obtain r where "extract_route p = Some r" by blast
    with True Some show ?thesis by (simp add: find_shortest_path_def Let_def)
  qed
qed

lemma shuttle_eval: "find_shortest_path
      (SubwayGraph [(''S'', [''42nd Street-Times Square'', ''Grand Central-42nd Street''])] [])
      ''42nd Street-Times Square'' ''Grand Central-42nd Street'' (Some weight_fast) 5
  = Some (Some \<lparr>stations = [''42nd Street-Times Square'', ''Grand Central-42nd Street''],
       lines = [''S''],
       segments = [Ride ''S'' ''42nd Street-Times Square'' ''Grand Central-42nd Street'' 1 2],
       total_time_minutes = 2, total_transfers = 0, total_stops = 2\<rparr>)"
  by code_simp

text \<open>
  C9: whenever \<open>find_shortest_path\<close> succeeds with an origin different from the
  destination, the stations of the route begin with the origin and end with the
  destination, their number is \<open>total_stops\<close> and at least 2, and no two consecutive
  entries of the lines are equal.
\<close>

theorem found_route_shape:
  assumes "find_shortest_path sg a b wfn mt = Some (Some r)" and "a \<noteq> b"
  shows "hd (stations r) = a \<and> last (stations r) = b
     \<and> int (length (stations r)) = total_stops r \<and> 2 \<le> total_stops r
     \<and> distinct_adj (lines r)"
proof -
  from assms obtain p where
    bp: "best_path_from sg a b wfn mt (get_available_lines sg a) = Some p"
    and ex: "extract_route p = Some r"
    by (auto simp: find_shortest_path_def Let_def split: if_splits option.splits)
  from best_path_extract [OF bp assms(2)] ex show ?thesis by auto
qed


theorem found_route_shape_witness:
  "find_shortest_path
      (SubwayGraph [(''S'', [''42nd Street-Times Square'', ''Grand Central-42nd Street''])] [])
      ''42nd Street-Times Square'' ''Grand Central-42nd Street'' (Some weight_fast) 5
     = Some (Some \<lparr>stations = [''42nd Street-Times Square'', ''Grand Central-42nd Street''],
         lines = [''S''],
         segments = [Ride ''S'' ''42nd Street-Times Square'' ''Grand Central-42nd Street'' 1 2],
         total_time_minutes = 2, total_transfers = 0, total_stops = 2\<rparr>)
   \<and> ''42nd Street-Times Square'' \<noteq> ''Grand Central-42nd Street''
   \<and> hd [''42nd Street-Times Square'', ''Grand Central-42nd Street''] = ''42nd Street-Times Square''
   \<and> last [''42nd Street-Times Square'', ''Grand Central-42nd Street'']
       = ''Grand Central-42nd Street''
   \<and> distinct_adj [''S'']"
  using found_route_shape [OF shuttle_eval] shuttle_eval by simp

section \<open>Properties of the optimizer\<close>

text \<open>
  C6: with \<open>c\<close> the crime count of the edge's destination station, 5 when the station is
  absent from the crime map, the Safe weight is \<open>t * (1 + min(c, 20) / 10) + (5 if b else 0)\<close>,
  the Fast weight is \<open>t + (8 if b else 0)\<close> and the Balanced weight is
  \<open>0.5 * t + 0.35 * (min(c, 20) * 0.5) + 0.15 * (6 if b else 0)\<close>; these are the weight
  functions the three route generators hand to the path finder.
\<close>

theorem weight_functions:
  "crimes_at cd nxt = (case map_of cd nxt of Some c \<Rightarrow> c | None \<Rightarrow> 5)
   \<and> weight_safe cd cur nxt cl nl t b = spec_weight_safe t b (crimes_at cd nxt)
   \<and> weight_fast cur nxt cl nl t b = spec_weight_fast t b
   \<and> weight_balanced cd cur nxt cl nl t b = spec_weight_balanced t b (crimes_at cd nxt)
   \<and> generate_safe_route ro origin destination =
       find_shortest_path (router ro) origin destination
         (Some (weight_safe (opt_crime_data ro))) 5
   \<and> generate_fast_route ro origin destination =
       find_shortest_path (router ro) origin destination (Some weight_fast) 5
   \<and> generate_balanced_route ro origin destination =
       find_shortest_path (router ro) origin destination
         (Some (weight_balanced (opt_crime_data ro))) 5"
  by (simp add: crimes_at_def weight_safe_def weight_fast_def weight_balanced_def
      spec_weight_safe_def spec_weight_fast_def spec_weight_balanced_def Let_def
      generate_safe_route_def generate_fast_route_def generate_balanced_route_def)

text \<open>
  C7: \<open>generate_routes\<close> always returns; each of the three searches is made and returns,
  whatever the others returned; the result is \<open>None\<close> if and only if all three searches
  found nothing, and otherwise it is the list of the routes that were found, in the order
  Safe, Fast, Balanced, each unchanged but for its name.
\<close>

theorem generate_routes_subset:
  "\<exists>safe fast balanced.
     generate_safe_route ro a b = Some safe
     \<and> generate_fast_route ro a b = Some fast
     \<and> generate_balanced_route ro a b = Some balanced
     \<and> generate_routes ro a b =
         Some (if safe = None \<and> fast = None \<and> balanced = None then None
               else Some (tagged ''SafeRoute'' safe @ tagged ''FastRoute'' fast
                          @ tagged ''BalancedRoute'' balanced))
     \<and> name (with_name nm r) = nm \<and> route.truncate (with_name nm r) = r"
proof -
  obtain safe where s: "generate_safe_route ro a b = Some safe"
    unfolding generate_safe_route_def using find_shortest_path_returns by blast
  obtain fast where f: "generate_fast_route ro a b = Some fast"
    unfolding generate_fast_route_def using find_shortest_path_returns by blast
  obtain balanced where bl: "generate_balanced_route ro a b = Some balanced"
    unfolding generate_balanced_route_def using find_shortest_path_returns by blast
  have "generate_routes ro a b =
         Some (if safe = None \<and> fast = None \<and> balanced = None then None
               else Some (tagged ''SafeRoute'' safe @ tagged ''FastRoute'' fast
                          @ tagged ''BalancedRoute'' balanced))"
    by (simp add: generate_routes_def s f bl tagged_def Let_def split: option.splits)
  moreover have "name (with_name nm r) = nm \<and> route.truncate (with_name nm r) = r"
    by (simp add: with_name_def route.truncate_def)
  ultimately show ?thesis using s f bl by blast
qed


section \<open>Optimality of a search that never prunes\<close>

text \<open>
  The loop of \<open>_dijkstra\<close> is Dijkstra's algorithm with one addition: a node that is first
  visited over more than \<open>max_transfers\<close> transfers is marked visited and not expanded.
  This section proves, for every pair of tables, that a search in which this never happens
  returns a path of least cost when no weight is negative, and that a route found by such
  searches is the cheapest of the three returned routes under its own weight function. It
  does not decide whether a search on the tables \<open>SUBWAY_LINES\<close> and \<open>TRANSFER_POINTS\<close> can
  leave a node unexpanded. The statement that each of the three returned routes is the
  cheapest under its own weight function (C2) is therefore neither proved nor refuted for
  \<open>nyc_subway\<close>; no theorem of this section stands for it.
\<close>

lemma hop_cost_weight: "hop_cost w = hop_weight (Some w)"
  by (rule ext) (simp add: hop_cost_def hop_weight_def)

lemma path_cost_walk_cost: "path_cost w hs = walk_cost (Some w) hs"
  by (simp add: path_cost_def walk_cost_def hop_cost_weight)

lemma nonneg_weightsD: "nonneg_weights sg wfn \<Longrightarrow> arc sg u v t \<Longrightarrow> 0 \<le> edge_weight wfn u v t"
  unfolding nonneg_weights_def by blast

lemma hop_weight_edge: "hop_weight wfn (u, v, t, snd v \<noteq> snd u) = edge_weight wfn u v t"
  by (simp add: hop_weight_def edge_weight_def)

lemma walk_cost_append: "walk_cost wfn (xs @ ys) = walk_cost wfn xs + walk_cost wfn ys"
  by (simp add: walk_cost_def)

lemma walk_cost_snoc:
  "walk_cost wfn (hs @ [(u, v, t, snd v \<noteq> snd u)]) = walk_cost wfn hs + edge_weight wfn u v t"
  by (simp add: walk_cost_def hop_weight_edge)

lemma walk_cost_nonneg:
  assumes "walk sg s0 hs z" and "nonneg_weights sg wfn"
  shows "0 \<le> walk_cost wfn hs"
  using assms(1)
proof (induction rule: walk.induct)
  case walk_nil
  then show ?case by (simp add: walk_cost_def)
next
  case (walk_snoc hs u v t)
  with nonneg_weightsD [OF assms(2)] show ?case by (simp add: walk_cost_snoc)
qed

text \<open>A walk that leaves a set crosses its border; the part up to the crossing costs no more.\<close>

lemma walk_crossing:
  assumes "walk sg s0 hs z" and "s0 \<in> S" and "z \<notin> S" and "nonneg_weights sg wfn"
  shows "\<exists>hs1 x y t. walk sg s0 hs1 x \<and> x \<in> S \<and> y \<notin> S \<and> arc sg x y t
     \<and> walk_cost wfn hs1 + edge_weight wfn x y t \<le> walk_cost wfn hs"
  using assms(1,3)
proof (induction rule: walk.induct)
  case walk_nil
  with assms(2) show ?case by simp
next
  case (walk_snoc hs u v t)
  have w: "0 \<le> edge_weight wfn u v t"
    using assms(4) walk_snoc.hyps(2) by (rule nonneg_weightsD)
  show ?case
  proof (cases "u \<in> S")
    case True
    with walk_snoc.hyps walk_snoc.prems show ?thesis
      by (intro exI [of _ hs] exI [of _ u] exI [of _ v] exI [of _ t]) (simp add: walk_cost_snoc)
  next
    case False
    from walk_snoc.IH [OF False] obtain hs1 x y t' where
      "walk sg s0 hs1 x" "x \<in> S" "y \<notin> S" "arc sg x y t'"
      "walk_cost wfn hs1 + edge_weight wfn x y t' \<le> walk_cost wfn hs"
      by blast
    with w show ?thesis
      by (intro exI [of _ hs1] exI [of _ x] exI [of _ y] exI [of _ t'])
        (simp add: walk_cost_snoc)
  qed
qed

lemma heap_min_le:
  assumes "x \<in> set pq"
  shows "heap_min pq \<le> x"
proof (cases pq)
  case Nil
  with assms show ?thesis by simp
next
  case (Cons y ys)
  then have "heap_min pq = Min (set pq)"
    using Min.set_eq_fold [of y ys] by simp
  with assms show ?thesis by simp
qed

lemma fst_mono_entry:
  fixes x y :: pq_entry
  assumes "x \<le> y"
  shows "fst x \<le> fst y"
  using assms by (auto simp: less_eq_prod_def)

lemma heap_min_key_le:
  assumes "(d, st, l, t) \<in> set pq" and "heap_min pq = (dc, cst, cl, ct)"
  shows "dc \<le> d"
  using fst_mono_entry [OF heap_min_le [OF assms(1)]] assms(2) by simp

lemma run_inv_start: "run_inv sg wfn s0 di pr vis pq \<Longrightarrow> di s0 = Some 0"
  by (simp add: run_inv_def)

lemma run_inv_pred:
  "run_inv sg wfn s0 di pr vis pq \<Longrightarrow> di v = Some d \<Longrightarrow> v \<noteq> s0 \<Longrightarrow>
     \<exists>p t dp. pr v = Some (p, t, snd v \<noteq> snd p) \<and> p \<in> vis \<and> arc sg p v t
        \<and> di p = Some dp \<and> d = dp + edge_weight wfn p v t"
  unfolding run_inv_def by blast

lemma run_inv_vis: "run_inv sg wfn s0 di pr vis pq \<Longrightarrow> v \<in> vis \<Longrightarrow> \<exists>d. di v = Some d"
  unfolding run_inv_def by blast

lemma run_inv_entry:
  "run_inv sg wfn s0 di pr vis pq \<Longrightarrow> (d, st, l, t) \<in> set pq \<Longrightarrow>
     \<exists>d'. di (st, l) = Some d' \<and> d' \<le> d"
  unfolding run_inv_def by blast

lemma run_inv_queued:
  "run_inv sg wfn s0 di pr vis pq \<Longrightarrow> di v = Some d \<Longrightarrow> v \<notin> vis \<Longrightarrow>
     \<exists>t. (d, fst v, snd v, t) \<in> set pq"
  unfolding run_inv_def by blast

lemma run_inv_s0: "run_inv sg wfn s0 di pr vis pq \<Longrightarrow> vis \<noteq> {} \<Longrightarrow> s0 \<in> vis"
  by (simp add: run_inv_def)

lemma run_invI:
  assumes "di s0 = Some 0"
    and "\<And>v d. di v = Some d \<Longrightarrow> v \<noteq> s0 \<Longrightarrow>
          \<exists>p t dp. pr v = Some (p, t, snd v \<noteq> snd p) \<and> p \<in> vis \<and> arc sg p v t
             \<and> di p = Some dp \<and> d = dp + edge_weight wfn p v t"
    and "\<And>v. v \<in> vis \<Longrightarrow> \<exists>d. di v = Some d"
    and "\<And>d st l t. (d, st, l, t) \<in> set pq \<Longrightarrow> \<exists>d'. di (st, l) = Some d' \<and> d' \<le> d"
    and "\<And>v d. di v = Some d \<Longrightarrow> v \<notin> vis \<Longrightarrow> \<exists>t. (d, fst v, snd v, t) \<in> set pq"
    and "vis \<noteq> {} \<Longrightarrow> s0 \<in> vis"
  shows "run_inv sg wfn s0 di pr vis pq"
  unfolding run_inv_def using assms by (auto simp: dom_def)

lemma run_inv_init: "run_inv sg wfn (a, l) [(a, l) \<mapsto> 0] Map.empty {} [(0, a, l, 0)]"
  by (rule run_invI) (auto split: if_splits)

text \<open>The key of a fresh minimum is the distance of its node.\<close>

lemma run_inv_min_key:
  assumes inv: "run_inv sg wfn s0 di pr vis pq" and ne: "pq \<noteq> []"
    and m: "heap_min pq = (dc, cst, cl, ct)" and nv: "(cst, cl) \<notin> vis"
  shows "di (cst, cl) = Some dc"
proof -
  from heap_min_in [OF ne] m have mem: "(dc, cst, cl, ct) \<in> set pq" by simp
  from run_inv_entry [OF inv mem] obtain d' where d': "di (cst, cl) = Some d'" "d' \<le> dc"
    by blast
  from run_inv_queued [OF inv d'(1) nv] obtain t where "(d', cst, cl, t) \<in> set pq" by auto
  from heap_min_key_le [OF this m] d' show ?thesis by simp
qed

lemma run_inv_first:
  assumes inv: "run_inv sg wfn s0 di pr vis pq" and "vis = {}" and "di v = Some d"
  shows "v = s0"
proof (rule ccontr)
  assume "v \<noteq> s0"
  from run_inv_pred [OF inv assms(3) this] assms(2) show False by auto
qed

lemma run_inv_stale:
  assumes inv: "run_inv sg wfn s0 di pr vis pq" and old: "(cst, cl) \<in> vis"
  shows "run_inv sg wfn s0 di pr vis (remove1 (dc, cst, cl, ct) pq)"
proof (rule run_invI)
  show "di s0 = Some 0" by (rule run_inv_start [OF inv])
  show "\<exists>p t dp. pr v = Some (p, t, snd v \<noteq> snd p) \<and> p \<in> vis \<and> arc sg p v t
          \<and> di p = Some dp \<and> d = dp + edge_weight wfn p v t"
    if "di v = Some d" "v \<noteq> s0" for v d
    by (rule run_inv_pred [OF inv that])
  show "\<exists>d. di v = Some d" if "v \<in> vis" for v by (rule run_inv_vis [OF inv that])
  show "\<exists>d'. di (st, l) = Some d' \<and> d' \<le> d"
    if "(d, st, l, t) \<in> set (remove1 (dc, cst, cl, ct) pq)" for d st l t
    using run_inv_entry [OF inv] that by (meson notin_set_remove1)
  show "\<exists>t. (d, fst v, snd v, t) \<in> set (remove1 (dc, cst, cl, ct) pq)"
    if "di v = Some d" "v \<notin> vis" for v d
  proof -
    from run_inv_queued [OF inv that] obtain t where t: "(d, fst v, snd v, t) \<in> set pq" by blast
    from that(2) old have "(d, fst v, snd v, t) \<noteq> (dc, cst, cl, ct)" by auto
    with t show ?thesis by (auto intro: exI [of _ t])
  qed
  show "s0 \<in> vis" if "vis \<noteq> {}" by (rule run_inv_s0 [OF inv that])
qed

lemma run_inv_visit:
  assumes inv: "run_inv sg wfn s0 di pr vis pq" and ne: "pq \<noteq> []"
    and m: "heap_min pq = (dc, cst, cl, ct)" and nv: "(cst, cl) \<notin> vis"
  shows "run_inv sg wfn s0 di pr (insert (cst, cl) vis) (remove1 (dc, cst, cl, ct) pq)"
proof (rule run_invI)
  note key = run_inv_min_key [OF inv ne m nv]
  show "di s0 = Some 0" by (rule run_inv_start [OF inv])
  show "\<exists>p t dp. pr v = Some (p, t, snd v \<noteq> snd p) \<and> p \<in> insert (cst, cl) vis \<and> arc sg p v t
          \<and> di p = Some dp \<and> d = dp + edge_weight wfn p v t"
    if "di v = Some d" "v \<noteq> s0" for v d
    using run_inv_pred [OF inv that] by blast
  show "\<exists>d. di v = Some d" if "v \<in> insert (cst, cl) vis" for v
    using that key run_inv_vis [OF inv, of v] by (cases "v = (cst, cl)") auto
  show "\<exists>d'. di (st, l) = Some d' \<and> d' \<le> d"
    if "(d, st, l, t) \<in> set (remove1 (dc, cst, cl, ct) pq)" for d st l t
    using run_inv_entry [OF inv] that by (meson notin_set_remove1)
  show "\<exists>t. (d, fst v, snd v, t) \<in> set (remove1 (dc, cst, cl, ct) pq)"
    if "di v = Some d" "v \<notin> insert (cst, cl) vis" for v d
  proof -
    from that have "v \<notin> vis" by simp
    from run_inv_queued [OF inv that(1) this] obtain t where t: "(d, fst v, snd v, t) \<in> set pq"
      by blast
    from that(2) have "(d, fst v, snd v, t) \<noteq> (dc, cst, cl, ct)" by auto
    with t show ?thesis by (auto intro: exI [of _ t])
  qed
  show "s0 \<in> insert (cst, cl) vis" if "insert (cst, cl) vis \<noteq> {}"
  proof (cases "vis = {}")
    case True
    from run_inv_first [OF inv True key] show ?thesis by simp
  next
    case False
    with run_inv_s0 [OF inv] show ?thesis by simp
  qed
qed

lemma relax_eq:
  "relax wfn cur d t vis (st, l, tt) (di, pr, pq) =
     (if (st, l) \<in> vis then (di, pr, pq)
      else if (case di (st, l) of None \<Rightarrow> True
               | Some x \<Rightarrow> d + edge_weight wfn cur (st, l) tt < x)
      then (di((st, l) \<mapsto> d + edge_weight wfn cur (st, l) tt),
            pr((st, l) \<mapsto> (cur, tt, l \<noteq> snd cur)),
            pq @ [(d + edge_weight wfn cur (st, l) tt, st, l, t + (if l \<noteq> snd cur then 1 else 0))])
      else (di, pr, pq))"
  by (cases wfn; cases "di (st, l)")
    (simp_all add: relax_def Let_def edge_weight_def heappush_def)

lemma run_inv_relax:
  assumes inv: "run_inv sg wfn s0 di pr vis pq" and cur: "cur \<in> vis" and dc: "di cur = Some d"
    and a: "arc sg cur (st, l) tt"
    and r: "relax wfn cur d t vis (st, l, tt) (di, pr, pq) = (di', pr', pq')"
  shows "run_inv sg wfn s0 di' pr' vis pq' \<and> di' cur = Some d"
proof (cases "(di', pr', pq') = (di, pr, pq)")
  case True
  with inv dc show ?thesis by simp
next
  case False
  define nd where "nd = d + edge_weight wfn cur (st, l) tt"
  define better where "better \<longleftrightarrow> (case di (st, l) of None \<Rightarrow> True | Some x \<Rightarrow> nd < x)"
  from r have "(di', pr', pq') =
     (if (st, l) \<in> vis then (di, pr, pq)
      else if better
      then (di((st, l) \<mapsto> nd), pr((st, l) \<mapsto> (cur, tt, l \<noteq> snd cur)),
            pq @ [(nd, st, l, t + (if l \<noteq> snd cur then 1 else 0))])
      else (di, pr, pq))"
    unfolding relax_eq nd_def better_def by simp
  with False have nv: "(st, l) \<notin> vis" and b: better
    and di': "di' = di((st, l) \<mapsto> nd)"
    and pr': "pr' = pr((st, l) \<mapsto> (cur, tt, l \<noteq> snd cur))"
    and pq': "pq' = pq @ [(nd, st, l, t + (if l \<noteq> snd cur then 1 else 0))]"
    by (auto split: if_splits)
  from b have better: "case di (st, l) of None \<Rightarrow> True | Some x \<Rightarrow> nd < x"
    by (simp add: better_def)
  from cur have s0: "s0 \<in> vis" using run_inv_s0 [OF inv] by auto
  from nv cur have ncur: "(st, l) \<noteq> cur" by auto
  from nv s0 have ns0: "(st, l) \<noteq> s0" by auto
  have unchanged: "di' v = di v" if "v \<in> vis" for v using that nv di' by auto
  have "run_inv sg wfn s0 di' pr' vis pq'"
  proof (rule run_invI)
    show "di' s0 = Some 0" using run_inv_start [OF inv] s0 unchanged by simp
    show "\<exists>p t dp. pr' v = Some (p, t, snd v \<noteq> snd p) \<and> p \<in> vis \<and> arc sg p v t
          \<and> di' p = Some dp \<and> dv = dp + edge_weight wfn p v t"
      if "di' v = Some dv" "v \<noteq> s0" for v dv
    proof (cases "v = (st, l)")
      case True
      with that di' have "dv = nd" by simp
      with True pr' cur a dc unchanged [OF cur] show ?thesis
        by (auto simp: nd_def)
    next
      case False
      with that di' have "di v = Some dv" by simp
      from run_inv_pred [OF inv this that(2)] obtain p t dp where
        "pr v = Some (p, t, snd v \<noteq> snd p)" "p \<in> vis" "arc sg p v t" "di p = Some dp"
        "dv = dp + edge_weight wfn p v t" by blast
      with False pr' unchanged show ?thesis by auto
    qed
    show "\<exists>d. di' v = Some d" if "v \<in> vis" for v
      using run_inv_vis [OF inv that] unchanged [OF that] by simp
    show "\<exists>d'. di' (st', l') = Some d' \<and> d' \<le> d0" if "(d0, st', l', t') \<in> set pq'" for d0 st' l' t'
    proof (cases "(d0, st', l', t') \<in> set pq")
      case True
      from run_inv_entry [OF inv True] obtain x where x: "di (st', l') = Some x" "x \<le> d0" by blast
      show ?thesis
      proof (cases "(st', l') = (st, l)")
        case True
        with x better have "nd < x" by simp
        with x True di' show ?thesis by auto
      next
        case False
        with x di' show ?thesis by auto
      qed
    next
      case False
      with that pq' have "d0 = nd" "(st', l') = (st, l)" by auto
      with di' show ?thesis by simp
    qed
    show "\<exists>t. (dv, fst v, snd v, t) \<in> set pq'" if "di' v = Some dv" "v \<notin> vis" for v dv
    proof (cases "v = (st, l)")
      case True
      with that di' have "dv = nd" by simp
      with True pq' show ?thesis by auto
    next
      case False
      with that di' have "di v = Some dv" by simp
      from run_inv_queued [OF inv this that(2)] pq' show ?thesis by auto
    qed
    show "s0 \<in> vis" if "vis \<noteq> {}" by (rule s0)
  qed
  with unchanged [OF cur] dc show ?thesis by simp
qed

lemma run_inv_fold_relax:
  assumes "run_inv sg wfn s0 di pr vis pq" and "cur \<in> vis" and "di cur = Some d"
    and "\<forall>e \<in> set es. arc sg cur (fst e, fst (snd e)) (snd (snd e))"
    and "fold (relax wfn cur d t vis) es (di, pr, pq) = (di', pr', pq')"
  shows "run_inv sg wfn s0 di' pr' vis pq' \<and> di' cur = Some d"
  using assms
proof (induction es arbitrary: di pr pq)
  case Nil
  then show ?case by simp
next
  case (Cons e es)
  obtain st l tt where e: "e = (st, l, tt)" by (cases e)
  obtain di1 pr1 pq1 where r: "relax wfn cur d t vis (st, l, tt) (di, pr, pq) = (di1, pr1, pq1)"
    by (metis prod_cases3)
  from Cons.prems(4) e have a: "arc sg cur (st, l) tt" by simp
  from run_inv_relax [OF Cons.prems(1,2,3) a r]
  have 1: "run_inv sg wfn s0 di1 pr1 vis pq1" "di1 cur = Some d" by auto
  from Cons.prems(5) e r
  have 2: "fold (relax wfn cur d t vis) es (di1, pr1, pq1) = (di', pr', pq')" by simp
  from Cons.prems(4) have 3: "\<forall>e \<in> set es. arc sg cur (fst e, fst (snd e)) (snd (snd e))" by simp
  from Cons.IH [OF 1(1) Cons.prems(2) 1(2) 3 2] show ?case .
qed

lemma adjacent_arcs:
  "\<forall>e \<in> set (get_adjacent_stations sg cst cl). arc sg (cst, cl) (fst e, fst (snd e)) (snd (snd e))"
  by (auto simp: arc_def)

lemma run_inv_step:
  assumes inv: "run_inv sg wfn s0 di pr vis pq" and ne: "pq \<noteq> []"
    and step: "dijkstra_step sg ss es wfn mt (di, pr, vis, pq) = Inr (di', pr', vis', pq')"
  shows "run_inv sg wfn s0 di' pr' vis' pq'"
proof -
  obtain dc cst cl ct where m: "heap_min pq = (dc, cst, cl, ct)" by (metis prod_cases4)
  let ?pq1 = "remove1 (dc, cst, cl, ct) pq"
  show ?thesis
  proof (cases "(cst, cl) \<in> vis")
    case True
    with step have "di' = di" "pr' = pr" "vis' = vis" "pq' = ?pq1"
      by (auto simp: dijkstra_step_eq [OF m])
    with run_inv_stale [OF inv True] show ?thesis by simp
  next
    case False
    note v = run_inv_visit [OF inv ne m False]
    note key = run_inv_min_key [OF inv ne m False]
    show ?thesis
    proof (cases "cst = es \<or> mt < ct")
      case True
      with step False have "di' = di" "pr' = pr" "vis' = insert (cst, cl) vis" "pq' = ?pq1"
        by (auto simp: dijkstra_step_eq [OF m] split: if_splits)
      with v show ?thesis by simp
    next
      case nt: False
      obtain d2 p2 pq2 where f: "fold (relax wfn (cst, cl) dc ct (insert (cst, cl) vis))
          (get_adjacent_stations sg cst cl) (di, pr, ?pq1) = (d2, p2, pq2)"
        by (metis prod_cases3)
      with step False nt have "di' = d2" "pr' = p2" "vis' = insert (cst, cl) vis" "pq' = pq2"
        by (auto simp: dijkstra_step_eq [OF m] Let_def)
      with run_inv_fold_relax [OF v _ key adjacent_arcs f] show ?thesis by simp
    qed
  qed
qed

lemma chain_start_unlinked: "chain pr V s0 n \<Longrightarrow> pr s0 = None"
  by (induction rule: chain.induct) auto

lemma traversed_walk:
  assumes "chain pr V s0 n" and inv: "run_inv sg wfn s0 di pr V pq"
  shows "\<exists>hs. (\<forall>acc. traversed_edges pr n acc = Some (hs @ acc))
     \<and> walk sg s0 hs n \<and> di n = Some (walk_cost wfn hs)"
  using assms(1)
proof (induction rule: chain.induct)
  case chain_start
  then have "traversed_edges pr s0 acc = Some ([] @ acc)" for acc
    by (subst traversed_edges.simps) simp
  moreover have "di s0 = Some (walk_cost wfn [])"
    using run_inv_start [OF inv] by (simp add: walk_cost_def)
  ultimately show ?case using walk_nil by blast
next
  case (chain_step n p t b)
  from chain_step.hyps(3) have "pr s0 = None" by (rule chain_start_unlinked)
  with chain_step.hyps(2) have ns0: "n \<noteq> s0" by auto
  from run_inv_vis [OF inv chain_step.hyps(1)] obtain dn where dn: "di n = Some dn" by blast
  from run_inv_pred [OF inv dn ns0] chain_step.hyps(2) obtain dp where
    b: "b = (snd n \<noteq> snd p)" and a: "arc sg p n t" and dp: "di p = Some dp"
    and sum: "dn = dp + edge_weight wfn p n t"
    by auto
  from chain_step.IH obtain hs where
    tr: "\<And>acc. traversed_edges pr p acc = Some (hs @ acc)"
    and w: "walk sg s0 hs p" and c: "di p = Some (walk_cost wfn hs)"
    by blast
  let ?hs = "hs @ [(p, n, t, snd n \<noteq> snd p)]"
  have "traversed_edges pr n acc = Some (?hs @ acc)" for acc
    using chain_step.hyps(2) tr [of "(p, n, t, b) # acc"] b
    by (subst traversed_edges.simps) simp
  moreover have "walk sg s0 ?hs n" using w a by (rule walk_snoc)
  moreover have "di n = Some (walk_cost wfn ?hs)"
    using dn sum dp c by (simp add: walk_cost_snoc)
  ultimately show ?case by blast
qed

text \<open>What any run that returns a path guarantees.\<close>

lemma step_result_walk:
  assumes li: "links_inv s0 pr vis pq" and inv: "run_inv sg wfn s0 di pr vis pq"
    and ne: "pq \<noteq> []"
    and step: "dijkstra_step sg ss es wfn mt (di, pr, vis, pq) = Inl path"
  shows "\<exists>hs. traversed_edges (previous path) (end_state path) [] = Some hs
     \<and> walk sg s0 hs (end_state path) \<and> walk_cost wfn hs = total_distance path
     \<and> fst (end_state path) = es"
proof -
  obtain dc cst cl ct where m: "heap_min pq = (dc, cst, cl, ct)" by (metis prod_cases4)
  from step have nv: "(cst, cl) \<notin> vis" and es: "cst = es"
    and path: "path = \<lparr> start_station = ss, end_station = es, total_distance = dc,
        visited = insert (cst, cl) vis, previous = pr, end_state = (cst, cl), transfers = ct \<rparr>"
    by (auto simp: dijkstra_step_eq [OF m] Let_def split: if_splits)
  let ?pq1 = "remove1 (dc, cst, cl, ct) pq"
  from links_inv_visit [OF li heap_min_node [OF ne m] pq_nodes_remove1 [of "(dc, cst, cl, ct)"]]
  have c: "chain pr (insert (cst, cl) vis) s0 (cst, cl)" by (auto simp: links_inv_def)
  note v = run_inv_visit [OF inv ne m nv]
  note key = run_inv_min_key [OF inv ne m nv]
  from traversed_walk [OF c v] key obtain hs where
    "traversed_edges pr (cst, cl) [] = Some hs" "walk sg s0 hs (cst, cl)" "walk_cost wfn hs = dc"
    by (metis append_Nil2 option.inject)
  with path es show ?thesis by simp
qed

lemma dijkstra_loop_walk:
  assumes "dijkstra_loop sg ss es wfn mt s = Some path"
    and "links_inv s0 (fst (snd s)) (fst (snd (snd s))) (snd (snd (snd s)))"
    and "run_inv sg wfn s0 (fst s) (fst (snd s)) (fst (snd (snd s))) (snd (snd (snd s)))"
  shows "\<exists>hs. traversed_edges (previous path) (end_state path) [] = Some hs
     \<and> walk sg s0 hs (end_state path) \<and> walk_cost wfn hs = total_distance path
     \<and> fst (end_state path) = es"
  using assms
proof (induction sg ss es wfn mt s rule: dijkstra_loop.induct)
  case (1 sg ss es wfn mt s)
  obtain di pr vis pq where s: "s = (di, pr, vis, pq)" by (metis prod_cases4)
  from "1.prems"(1) s have ne: "pq \<noteq> []"
    by (subst (asm) dijkstra_loop.simps) (auto split: if_splits)
  show ?case
  proof (cases "dijkstra_step sg ss es wfn mt s")
    case (Inl p)
    with "1.prems"(1) ne s have "p = path"
      by (subst (asm) dijkstra_loop.simps) auto
    with Inl s "1.prems"(2,3) ne step_result_walk show ?thesis by auto
  next
    case (Inr s')
    obtain di' pr' vis' pq' where s': "s' = (di', pr', vis', pq')" by (metis prod_cases4)
    from "1.prems"(1) ne s Inr have loop: "dijkstra_loop sg ss es wfn mt s' = Some path"
      by (subst (asm) dijkstra_loop.simps) auto
    from links_inv_step [OF _ ne] "1.prems"(2) Inr s s'
    have li: "links_inv s0 pr' vis' pq'" by auto
    from run_inv_step [OF _ ne] "1.prems"(3) Inr s s'
    have ri: "run_inv sg wfn s0 di' pr' vis' pq'" by auto
    from "1.IH" [OF _ Inr loop] ne s s' li ri show ?thesis by simp
  qed
qed

lemma dijkstra_walk:
  assumes "dijkstra sg a l b wfn mt = Some path"
  shows "\<exists>hs. traversed_edges (previous path) (end_state path) [] = Some hs
     \<and> walk sg (a, l) hs (end_state path) \<and> walk_cost wfn hs = total_distance path
     \<and> fst (end_state path) = b"
  using dijkstra_loop_walk [OF assms [unfolded dijkstra_def], of "(a, l)"]
    links_inv_init run_inv_init
  by simp

lemma opt_inv_walk:
  "opt_inv sg wfn s0 es di vis pq \<Longrightarrow> u \<in> vis \<Longrightarrow> walk sg s0 hs u \<Longrightarrow>
     \<exists>du. di u = Some du \<and> du \<le> walk_cost wfn hs"
  unfolding opt_inv_def by blast

lemma opt_inv_arc:
  "opt_inv sg wfn s0 es di vis pq \<Longrightarrow> u \<in> vis \<Longrightarrow> arc sg u v t \<Longrightarrow>
     \<exists>du dv. di u = Some du \<and> di v = Some dv \<and> dv \<le> du + edge_weight wfn u v t"
  unfolding opt_inv_def by blast

lemma opt_inv_key:
  "opt_inv sg wfn s0 es di vis pq \<Longrightarrow> u \<in> vis \<Longrightarrow> (d, st, l, t) \<in> set pq \<Longrightarrow>
     \<exists>du. di u = Some du \<and> du \<le> d"
  unfolding opt_inv_def by blast

lemma opt_inv_end: "opt_inv sg wfn s0 es di vis pq \<Longrightarrow> u \<in> vis \<Longrightarrow> fst u \<noteq> es"
  unfolding opt_inv_def by blast

lemma opt_invI:
  assumes "\<And>u hs. u \<in> vis \<Longrightarrow> walk sg s0 hs u \<Longrightarrow> \<exists>du. di u = Some du \<and> du \<le> walk_cost wfn hs"
    and "\<And>u v t. u \<in> vis \<Longrightarrow> arc sg u v t \<Longrightarrow>
          \<exists>du dv. di u = Some du \<and> di v = Some dv \<and> dv \<le> du + edge_weight wfn u v t"
    and "\<And>u d st l t. u \<in> vis \<Longrightarrow> (d, st, l, t) \<in> set pq \<Longrightarrow> \<exists>du. di u = Some du \<and> du \<le> d"
    and "\<And>u. u \<in> vis \<Longrightarrow> fst u \<noteq> es"
  shows "opt_inv sg wfn s0 es di vis pq"
  unfolding opt_inv_def using assms by blast

lemma opt_inv_init: "opt_inv sg wfn s0 es di {} pq"
  by (simp add: opt_inv_def)

text \<open>No walk to an unvisited node is cheaper than the key of a fresh minimum.\<close>

lemma pop_lower_bound:
  assumes inv: "run_inv sg wfn s0 di pr vis pq" and opt: "opt_inv sg wfn s0 es di vis pq"
    and nn: "nonneg_weights sg wfn" and ne: "pq \<noteq> []"
    and m: "heap_min pq = (dc, cst, cl, ct)" and nv: "(cst, cl) \<notin> vis"
    and w: "walk sg s0 hs z" and z: "z \<notin> vis"
  shows "dc \<le> walk_cost wfn hs"
proof (cases "vis = {}")
  case True
  note key = run_inv_min_key [OF inv ne m nv]
  from run_inv_first [OF inv True key] run_inv_start [OF inv] key have "dc = 0" by simp
  with walk_cost_nonneg [OF w nn] show ?thesis by simp
next
  case False
  then have s0: "s0 \<in> vis" by (rule run_inv_s0 [OF inv])
  from walk_crossing [OF w s0 z nn] obtain hs1 x y t where
    w1: "walk sg s0 hs1 x" and x: "x \<in> vis" and y: "y \<notin> vis" and a: "arc sg x y t"
    and le: "walk_cost wfn hs1 + edge_weight wfn x y t \<le> walk_cost wfn hs"
    by blast
  from opt_inv_walk [OF opt x w1] obtain dx where dx: "di x = Some dx" "dx \<le> walk_cost wfn hs1"
    by blast
  from opt_inv_arc [OF opt x a] dx(1) obtain dy where
    dy: "di y = Some dy" "dy \<le> dx + edge_weight wfn x y t" by auto
  from run_inv_queued [OF inv dy(1) y] obtain t' where "(dy, fst y, snd y, t') \<in> set pq" by blast
  from heap_min_key_le [OF this m] have "dc \<le> dy" .
  with dy(2) dx(2) le show ?thesis by linarith
qed

text \<open>What one relaxation does to the distances and the queue.\<close>

lemma relax_effect:
  assumes r: "relax wfn c dc t V (st, l, tt) (di, pr, pq) = (di', pr', pq')"
    and nn: "0 \<le> edge_weight wfn c (st, l) tt"
  shows "(\<forall>v \<in> V. di' v = di v)
     \<and> (\<forall>v dv. di v = Some dv \<longrightarrow> (\<exists>dv'. di' v = Some dv' \<and> dv' \<le> dv))
     \<and> (\<forall>d s k n. (d, s, k, n) \<in> set pq' \<longrightarrow> (d, s, k, n) \<in> set pq \<or> dc \<le> d)
     \<and> ((st, l) \<in> V
          \<or> (\<exists>dv. di' (st, l) = Some dv \<and> dv \<le> dc + edge_weight wfn c (st, l) tt))"
proof -
  define nd where "nd = dc + edge_weight wfn c (st, l) tt"
  define better where "better \<longleftrightarrow> (case di (st, l) of None \<Rightarrow> True | Some x \<Rightarrow> nd < x)"
  from r have eq: "(di', pr', pq') =
     (if (st, l) \<in> V then (di, pr, pq)
      else if better
      then (di((st, l) \<mapsto> nd), pr((st, l) \<mapsto> (c, tt, l \<noteq> snd c)),
            pq @ [(nd, st, l, t + (if l \<noteq> snd c then 1 else 0))])
      else (di, pr, pq))"
    unfolding relax_eq nd_def better_def by simp
  from nn have nd: "dc \<le> nd" by (simp add: nd_def)
  show ?thesis
  proof (cases "(st, l) \<in> V")
    case True
    with eq show ?thesis by auto
  next
    case nv: False
    show ?thesis
    proof (cases better)
      case True
      with nv eq have di': "di' = di((st, l) \<mapsto> nd)"
        and pq': "pq' = pq @ [(nd, st, l, t + (if l \<noteq> snd c then 1 else 0))]"
        by auto
      have 1: "\<forall>v \<in> V. di' v = di v" using nv di' by auto
      have 2: "\<forall>v dv. di v = Some dv \<longrightarrow> (\<exists>dv'. di' v = Some dv' \<and> dv' \<le> dv)"
      proof (intro allI impI)
        fix v dv assume v: "di v = Some dv"
        show "\<exists>dv'. di' v = Some dv' \<and> dv' \<le> dv"
        proof (cases "v = (st, l)")
          case True
          with v \<open>better\<close> have "nd < dv" by (simp add: better_def)
          with True di' show ?thesis by auto
        next
          case False
          with v di' show ?thesis by auto
        qed
      qed
      have 3: "\<forall>d s k n. (d, s, k, n) \<in> set pq' \<longrightarrow> (d, s, k, n) \<in> set pq \<or> dc \<le> d"
        using pq' nd by auto
      have 4: "\<exists>dv. di' (st, l) = Some dv \<and> dv \<le> dc + edge_weight wfn c (st, l) tt"
        using di' by (simp add: nd_def)
      from 1 2 3 4 show ?thesis by blast
    next
      case False
      with nv eq have same: "di' = di" "pq' = pq" by auto
      from False obtain x where "di (st, l) = Some x" "x \<le> nd"
        by (auto simp: better_def split: option.splits)
      with same show ?thesis by (auto simp: nd_def)
    qed
  qed
qed

lemma fold_relax_effect:
  assumes "fold (relax wfn c dc t V) es (di, pr, pq) = (di', pr', pq')"
    and "\<forall>e \<in> set es. 0 \<le> edge_weight wfn c (fst e, fst (snd e)) (snd (snd e))"
  shows "(\<forall>v \<in> V. di' v = di v)
     \<and> (\<forall>v dv. di v = Some dv \<longrightarrow> (\<exists>dv'. di' v = Some dv' \<and> dv' \<le> dv))
     \<and> (\<forall>d s k n. (d, s, k, n) \<in> set pq' \<longrightarrow> (d, s, k, n) \<in> set pq \<or> dc \<le> d)
     \<and> (\<forall>e \<in> set es. (fst e, fst (snd e)) \<in> V
          \<or> (\<exists>dv. di' (fst e, fst (snd e)) = Some dv
                \<and> dv \<le> dc + edge_weight wfn c (fst e, fst (snd e)) (snd (snd e))))"
  using assms
proof (induction es arbitrary: di pr pq)
  case Nil
  then show ?case by simp
next
  case (Cons e es)
  obtain st l tt where e: "e = (st, l, tt)" by (cases e)
  obtain di1 pr1 pq1 where r: "relax wfn c dc t V (st, l, tt) (di, pr, pq) = (di1, pr1, pq1)"
    by (metis prod_cases3)
  from Cons.prems(2) e have nn: "0 \<le> edge_weight wfn c (st, l) tt" by simp
  from relax_effect [OF r nn] have
    a1: "\<forall>v \<in> V. di1 v = di v"
    and a2: "\<forall>v dv. di v = Some dv \<longrightarrow> (\<exists>dv'. di1 v = Some dv' \<and> dv' \<le> dv)"
    and a3: "\<forall>d s k n. (d, s, k, n) \<in> set pq1 \<longrightarrow> (d, s, k, n) \<in> set pq \<or> dc \<le> d"
    and a4: "(st, l) \<in> V
          \<or> (\<exists>dv. di1 (st, l) = Some dv \<and> dv \<le> dc + edge_weight wfn c (st, l) tt)"
    by blast+
  from Cons.prems(1) e r
  have f: "fold (relax wfn c dc t V) es (di1, pr1, pq1) = (di', pr', pq')" by simp
  from Cons.prems(2)
  have nn': "\<forall>e \<in> set es. 0 \<le> edge_weight wfn c (fst e, fst (snd e)) (snd (snd e))" by simp
  from Cons.IH [OF f nn'] have
    b1: "\<forall>v \<in> V. di' v = di1 v"
    and b2: "\<forall>v dv. di1 v = Some dv \<longrightarrow> (\<exists>dv'. di' v = Some dv' \<and> dv' \<le> dv)"
    and b3: "\<forall>d s k n. (d, s, k, n) \<in> set pq' \<longrightarrow> (d, s, k, n) \<in> set pq1 \<or> dc \<le> d"
    and b4: "\<forall>e \<in> set es. (fst e, fst (snd e)) \<in> V
          \<or> (\<exists>dv. di' (fst e, fst (snd e)) = Some dv
                \<and> dv \<le> dc + edge_weight wfn c (fst e, fst (snd e)) (snd (snd e)))"
    by blast+
  have 1: "\<forall>v \<in> V. di' v = di v" using a1 b1 by simp
  have 2: "\<forall>v dv. di v = Some dv \<longrightarrow> (\<exists>dv'. di' v = Some dv' \<and> dv' \<le> dv)"
    using a2 b2 by (meson order_trans)
  have 3: "\<forall>d s k n. (d, s, k, n) \<in> set pq' \<longrightarrow> (d, s, k, n) \<in> set pq \<or> dc \<le> d"
    using a3 b3 by blast
  have 4: "(st, l) \<in> V
          \<or> (\<exists>dv. di' (st, l) = Some dv \<and> dv \<le> dc + edge_weight wfn c (st, l) tt)"
    using a4 b2 by (meson order_trans)
  from 1 2 3 4 b4 e show ?case by simp
qed

lemma opt_inv_stale:
  assumes "opt_inv sg wfn s0 es di vis pq"
  shows "opt_inv sg wfn s0 es di vis (remove1 x pq)"
proof (rule opt_invI)
  show "\<exists>du. di u = Some du \<and> du \<le> d" if "u \<in> vis" "(d, st, l, t) \<in> set (remove1 x pq)"
    for u d st l t
    using opt_inv_key [OF assms that(1)] that(2) by (meson notin_set_remove1)
qed (use assms in \<open>auto dest: opt_inv_walk opt_inv_arc opt_inv_end\<close>)

lemma opt_inv_expand:
  assumes inv: "run_inv sg wfn s0 di pr vis pq" and opt: "opt_inv sg wfn s0 es di vis pq"
    and nn: "nonneg_weights sg wfn" and ne: "pq \<noteq> []"
    and m: "heap_min pq = (dc, cst, cl, ct)" and nv: "(cst, cl) \<notin> vis"
    and nend: "cst \<noteq> es"
    and f: "fold (relax wfn (cst, cl) dc ct (insert (cst, cl) vis))
          (get_adjacent_stations sg cst cl) (di, pr, remove1 (dc, cst, cl, ct) pq) = (di', pr', pq')"
  shows "opt_inv sg wfn s0 es di' (insert (cst, cl) vis) pq'"
proof -
  let ?c = "(cst, cl)"
  let ?V = "insert ?c vis"
  let ?adj = "get_adjacent_stations sg cst cl"
  note key = run_inv_min_key [OF inv ne m nv]
  from heap_min_in [OF ne] m have mem: "(dc, cst, cl, ct) \<in> set pq" by simp
  have nn': "\<forall>e \<in> set ?adj. 0 \<le> edge_weight wfn ?c (fst e, fst (snd e)) (snd (snd e))"
    using adjacent_arcs [of sg cst cl] nonneg_weightsD [OF nn] by blast
  from fold_relax_effect [OF f nn'] have
    same: "\<And>v. v \<in> ?V \<Longrightarrow> di' v = di v"
    and mono: "\<And>v dv. di v = Some dv \<Longrightarrow> \<exists>dv'. di' v = Some dv' \<and> dv' \<le> dv"
    and keys: "\<And>d s k n. (d, s, k, n) \<in> set pq' \<Longrightarrow>
        (d, s, k, n) \<in> set (remove1 (dc, cst, cl, ct) pq) \<or> dc \<le> d"
    and relaxed: "\<And>e. e \<in> set ?adj \<Longrightarrow> (fst e, fst (snd e)) \<in> ?V
          \<or> (\<exists>dv. di' (fst e, fst (snd e)) = Some dv
                \<and> dv \<le> dc + edge_weight wfn ?c (fst e, fst (snd e)) (snd (snd e)))"
    by blast+
  have c': "di' ?c = Some dc" using same [of ?c] key by simp
  have old_le: "\<exists>du. di u = Some du \<and> du \<le> dc" if "u \<in> vis" for u
    using opt_inv_key [OF opt that mem] .
  show ?thesis
  proof (rule opt_invI)
    fix u hs assume u: "u \<in> ?V" and w: "walk sg s0 hs u"
    show "\<exists>du. di' u = Some du \<and> du \<le> walk_cost wfn hs"
    proof (cases "u = ?c")
      case True
      with pop_lower_bound [OF inv opt nn ne m nv w] nv c' show ?thesis by simp
    next
      case False
      with u have "u \<in> vis" by simp
      from opt_inv_walk [OF opt this w] same [OF u] show ?thesis by simp
    qed
  next
    fix u v t assume u: "u \<in> ?V" and a: "arc sg u v t"
    show "\<exists>du dv. di' u = Some du \<and> di' v = Some dv \<and> dv \<le> du + edge_weight wfn u v t"
    proof (cases "u = ?c")
      case True
      from a True have e: "(fst v, snd v, t) \<in> set ?adj" by (simp add: arc_def)
      have w0: "0 \<le> edge_weight wfn ?c v t" using nonneg_weightsD [OF nn] a True by simp
      from relaxed [OF e] consider (vis) "v \<in> ?V"
        | (new) dv where "di' v = Some dv" "dv \<le> dc + edge_weight wfn ?c v t"
        by auto
      then show ?thesis
      proof cases
        case vis
        show ?thesis
        proof (cases "v = ?c")
          case True
          with c' w0 \<open>u = ?c\<close> show ?thesis by simp
        next
          case False
          with vis have "v \<in> vis" by simp
          from old_le [OF this] obtain dv where "di v = Some dv" "dv \<le> dc" by blast
          with same [OF vis] c' w0 \<open>u = ?c\<close> show ?thesis by auto
        qed
      next
        case new
        with c' \<open>u = ?c\<close> show ?thesis by simp
      qed
    next
      case False
      with u have uv: "u \<in> vis" by simp
      from opt_inv_arc [OF opt uv a] obtain du dv where
        "di u = Some du" "di v = Some dv" "dv \<le> du + edge_weight wfn u v t" by blast
      with mono [of v dv] same [OF u] show ?thesis by force
    qed
  next
    fix u d st l t assume u: "u \<in> ?V" and x: "(d, st, l, t) \<in> set pq'"
    from keys [OF x] have d: "(d, st, l, t) \<in> set pq \<or> dc \<le> d"
      by (meson notin_set_remove1)
    show "\<exists>du. di' u = Some du \<and> du \<le> d"
    proof (cases "u = ?c")
      case True
      from d heap_min_key_le [OF _ m] have "dc \<le> d" by blast
      with c' True show ?thesis by simp
    next
      case False
      with u have uv: "u \<in> vis" by simp
      from d show ?thesis
      proof
        assume "(d, st, l, t) \<in> set pq"
        from opt_inv_key [OF opt uv this] same [OF u] show ?thesis by simp
      next
        assume "dc \<le> d"
        with old_le [OF uv] same [OF u] show ?thesis by force
      qed
    qed
  next
    fix u assume "u \<in> ?V"
    then show "fst u \<noteq> es"
      using nend opt_inv_end [OF opt, of u] by (cases "u = ?c") auto
  qed
qed

lemma opt_inv_step:
  assumes inv: "run_inv sg wfn s0 di pr vis pq" and opt: "opt_inv sg wfn s0 es di vis pq"
    and nn: "nonneg_weights sg wfn" and ne: "pq \<noteq> []"
    and np: "\<not> prunes_now es mt (di, pr, vis, pq)"
    and step: "dijkstra_step sg ss es wfn mt (di, pr, vis, pq) = Inr (di', pr', vis', pq')"
  shows "opt_inv sg wfn s0 es di' vis' pq'"
proof -
  obtain dc cst cl ct where m: "heap_min pq = (dc, cst, cl, ct)" by (metis prod_cases4)
  let ?pq1 = "remove1 (dc, cst, cl, ct) pq"
  show ?thesis
  proof (cases "(cst, cl) \<in> vis")
    case True
    with step have "di' = di" "vis' = vis" "pq' = ?pq1"
      by (auto simp: dijkstra_step_eq [OF m])
    with opt_inv_stale [OF opt] show ?thesis by simp
  next
    case False
    from step False have nend: "cst \<noteq> es"
      by (auto simp: dijkstra_step_eq [OF m] split: if_splits)
    with np m False have cap: "\<not> mt < ct" by (simp add: prunes_now_def)
    obtain d2 p2 pq2 where f: "fold (relax wfn (cst, cl) dc ct (insert (cst, cl) vis))
        (get_adjacent_stations sg cst cl) (di, pr, ?pq1) = (d2, p2, pq2)"
      by (metis prod_cases3)
    with step False nend cap have "di' = d2" "vis' = insert (cst, cl) vis" "pq' = pq2"
      by (auto simp: dijkstra_step_eq [OF m] Let_def)
    with opt_inv_expand [OF inv opt nn ne m False nend f] show ?thesis by simp
  qed
qed

lemma step_result_optimal:
  assumes inv: "run_inv sg wfn s0 di pr vis pq" and opt: "opt_inv sg wfn s0 es di vis pq"
    and nn: "nonneg_weights sg wfn" and ne: "pq \<noteq> []"
    and step: "dijkstra_step sg ss es wfn mt (di, pr, vis, pq) = Inl path"
    and w: "walk sg s0 hs z" and z: "fst z = es"
  shows "total_distance path \<le> walk_cost wfn hs"
proof -
  obtain dc cst cl ct where m: "heap_min pq = (dc, cst, cl, ct)" by (metis prod_cases4)
  from step have nv: "(cst, cl) \<notin> vis" and td: "total_distance path = dc"
    by (auto simp: dijkstra_step_eq [OF m] Let_def split: if_splits)
  from z opt_inv_end [OF opt, of z] have "z \<notin> vis" by blast
  from pop_lower_bound [OF inv opt nn ne m nv w this] td show ?thesis by simp
qed

lemma exhausted_no_walk:
  assumes inv: "run_inv sg wfn s0 di pr vis []" and opt: "opt_inv sg wfn s0 es di vis []"
    and nn: "nonneg_weights sg wfn" and w: "walk sg s0 hs z" and z: "fst z = es"
  shows False
proof -
  from z opt_inv_end [OF opt, of z] have zv: "z \<notin> vis" by blast
  have s0: "s0 \<in> vis"
  proof (rule ccontr)
    assume "s0 \<notin> vis"
    from run_inv_queued [OF inv run_inv_start [OF inv] this] show False by simp
  qed
  from walk_crossing [OF w s0 zv nn] obtain x y t where
    x: "x \<in> vis" and y: "y \<notin> vis" and a: "arc sg x y t" by blast
  from opt_inv_arc [OF opt x a] obtain dy where "di y = Some dy" by blast
  from run_inv_queued [OF inv this y] show False by simp
qed

lemma dijkstra_loop_optimal:
  assumes "run_inv sg wfn s0 (fst s) (fst (snd s)) (fst (snd (snd s))) (snd (snd (snd s)))"
    and "opt_inv sg wfn s0 es (fst s) (fst (snd (snd s))) (snd (snd (snd s)))"
    and "nonneg_weights sg wfn"
    and "never_prunes sg ss es wfn mt s"
    and "walk sg s0 hs z" and "fst z = es"
  shows "\<exists>path. dijkstra_loop sg ss es wfn mt s = Some path
     \<and> total_distance path \<le> walk_cost wfn hs"
  using assms
proof (induction sg ss es wfn mt s rule: dijkstra_loop.induct)
  case (1 sg ss es wfn mt s)
  obtain di pr vis pq where s: "s = (di, pr, vis, pq)" by (metis prod_cases4)
  show ?case
  proof (cases "pq = []")
    case True
    from "1.prems"(1,2) s True
    have "run_inv sg wfn s0 di pr vis []" "opt_inv sg wfn s0 es di vis []" by simp_all
    from exhausted_no_walk [OF this "1.prems"(3,5,6)] show ?thesis ..
  next
    case ne: False
    show ?thesis
    proof (cases "dijkstra_step sg ss es wfn mt s")
      case (Inl p)
      with ne s have "dijkstra_loop sg ss es wfn mt s = Some p"
        by (subst dijkstra_loop.simps) simp
      moreover from step_result_optimal [OF _ _ "1.prems"(3) ne _ "1.prems"(5,6)]
        "1.prems"(1,2) Inl s
      have "total_distance p \<le> walk_cost wfn hs" by auto
      ultimately show ?thesis by simp
    next
      case (Inr s')
      obtain di' pr' vis' pq' where s': "s' = (di', pr', vis', pq')" by (metis prod_cases4)
      from ne s Inr have loop:
        "dijkstra_loop sg ss es wfn mt s = dijkstra_loop sg ss es wfn mt s'"
        by (subst dijkstra_loop.simps) simp
      from ne s Inr have "never_prunes sg ss es wfn mt s
          = (\<not> prunes_now es mt s \<and> never_prunes sg ss es wfn mt s')"
        by (subst never_prunes.simps) simp
      with "1.prems"(4) have np: "\<not> prunes_now es mt s"
        and nps: "never_prunes sg ss es wfn mt s'"
        by simp_all
      from run_inv_step [OF _ ne] "1.prems"(1) Inr s s'
      have ri: "run_inv sg wfn s0 di' pr' vis' pq'" by auto
      from opt_inv_step [OF _ _ "1.prems"(3) ne] "1.prems"(1,2) np Inr s s'
      have oi: "opt_inv sg wfn s0 es di' vis' pq'" by auto
      from "1.IH" [OF _ Inr _ _ "1.prems"(3) nps "1.prems"(5,6)] ne s s' ri oi loop
      show ?thesis by simp
    qed
  qed
qed

lemma dijkstra_optimal:
  assumes "nonneg_weights sg wfn"
    and "never_prunes sg a b wfn mt ([(a, l) \<mapsto> 0], Map.empty, {}, [(0, a, l, 0)])"
    and "walk sg (a, l) hs z" and "fst z = b"
  shows "\<exists>path. dijkstra sg a l b wfn mt = Some path \<and> total_distance path \<le> walk_cost wfn hs"
  unfolding dijkstra_def
  using dijkstra_loop_optimal [OF _ _ assms(1,2,3,4)] run_inv_init opt_inv_init
  by simp

lemma best_so_far_step:
  assumes "best_so_far sg a b wfn mt seen best"
  shows "best_so_far sg a b wfn mt (insert l seen) (try_start_line sg a b wfn mt l best)"
proof (cases "dijkstra sg a l b wfn mt")
  case None
  with assms show ?thesis by (auto simp: best_so_far_def try_start_line_def)
next
  case (Some q)
  obtain bp bd where best: "best = (bp, bd)" by (cases best)
  show ?thesis
  proof (cases bp)
    case None
    with assms best Some show ?thesis
      by (auto simp: best_so_far_def try_start_line_def)
  next
    case (Some p)
    with assms best \<open>dijkstra sg a l b wfn mt = Some q\<close> show ?thesis
      by (cases "total_distance q < total_distance p")
        (fastforce simp: best_so_far_def try_start_line_def)+
  qed
qed

lemma best_so_far_fold:
  assumes "best_so_far sg a b wfn mt seen best"
  shows "best_so_far sg a b wfn mt (seen \<union> set ls)
     (fold (try_start_line sg a b wfn mt) ls best)"
  using assms
proof (induction ls arbitrary: seen best)
  case Nil
  then show ?case by simp
next
  case (Cons l ls)
  from Cons.IH [OF best_so_far_step [OF Cons.prems, of l]] show ?case by simp
qed

lemma best_path_from_least:
  assumes "best_path_from sg a b wfn mt ls = Some p" and "l \<in> set ls"
    and "dijkstra sg a l b wfn mt = Some q"
  shows "total_distance p \<le> total_distance q"
proof -
  have "best_so_far sg a b wfn mt {} (None, None)" by (simp add: best_so_far_def)
  from best_so_far_fold [OF this, of ls] assms show ?thesis
    by (auto simp: best_so_far_def best_path_from_def)
qed

lemma no_pruningD:
  "no_pruning sg a b wfn mt \<Longrightarrow> l \<in> set (get_available_lines sg a) \<Longrightarrow>
     never_prunes sg a b wfn mt ([(a, l) \<mapsto> 0], Map.empty, {}, [(0, a, l, 0)])"
  by (simp add: no_pruning_def list_all_iff)

text \<open>
  A search that never prunes returns a path that costs, under its own weight function, no
  more than the path of any other search between the same stations.
\<close>

lemma search_optimal:
  assumes nn: "nonneg_weights sg wfn" and np: "no_pruning sg a b wfn mt"
    and p: "best_path_from sg a b wfn mt (get_available_lines sg a) = Some p"
    and q: "best_path_from sg a b wfn' mt' (get_available_lines sg a) = Some q"
    and ab: "a \<noteq> b"
  shows "walk_cost wfn (search_edges sg a b wfn mt) \<le> walk_cost wfn (search_edges sg a b wfn' mt')"
proof -
  from best_path_from_dijkstra [OF q] obtain l' where
    l': "l' \<in> set (get_available_lines sg a)" and dq: "dijkstra sg a l' b wfn' mt' = Some q"
    by blast
  from dijkstra_walk [OF dq] obtain hq where
    tq: "traversed_edges (previous q) (end_state q) [] = Some hq"
    and wq: "walk sg (a, l') hq (end_state q)" and eq: "fst (end_state q) = b"
    by blast
  from dijkstra_optimal [OF nn no_pruningD [OF np l'] wq eq] obtain p' where
    dp': "dijkstra sg a l' b wfn mt = Some p'" and le: "total_distance p' \<le> walk_cost wfn hq"
    by blast
  from best_path_from_least [OF p l' dp'] have le2: "total_distance p \<le> total_distance p'" .
  from best_path_from_dijkstra [OF p] obtain l where dp: "dijkstra sg a l b wfn mt = Some p"
    by blast
  from dijkstra_walk [OF dp] obtain hp where
    tp: "traversed_edges (previous p) (end_state p) [] = Some hp"
    and cp: "walk_cost wfn hp = total_distance p"
    by blast
  from ab p tp have "search_edges sg a b wfn mt = hp" by (simp add: search_edges_def)
  moreover from ab q tq have "search_edges sg a b wfn' mt' = hq" by (simp add: search_edges_def)
  ultimately show ?thesis using cp le le2 by simp
qed

text \<open>The three weight functions are not negative on such data.\<close>

lemma arc_time_nonneg:
  assumes "nonneg_times sg" and "arc sg u v t"
  shows "0 \<le> t"
proof (cases "map_of (graph sg) u")
  case None
  with assms(2) show ?thesis by (simp add: arc_def get_adjacent_stations_def)
next
  case (Some es)
  with assms(2) have mem: "(fst v, snd v, t) \<in> set es"
    by (simp add: arc_def get_adjacent_stations_def)
  from Some have "(u, es) \<in> set (graph sg)" by (rule map_of_SomeD)
  with assms(1) mem show ?thesis
    by (fastforce simp: nonneg_times_def list_all_iff)
qed

lemma crimes_at_nonneg:
  assumes "nonneg_crimes cd"
  shows "0 \<le> crimes_at cd station"
proof (cases "map_of cd station")
  case None
  then show ?thesis by (simp add: crimes_at_def)
next
  case (Some c)
  then have "(station, c) \<in> set cd" by (rule map_of_SomeD)
  with assms Some show ?thesis by (fastforce simp: nonneg_crimes_def list_all_iff crimes_at_def)
qed

lemma weight_safe_nonneg:
  assumes "0 \<le> t" and "nonneg_crimes cd"
  shows "0 \<le> weight_safe cd cur nxt cl nl t b"
proof -
  have "0 \<le> min (crimes_at cd nxt) 20" using crimes_at_nonneg [OF assms(2)] by simp
  then have "0 \<le> rat_of_int t * (1 + rat_of_int (min (crimes_at cd nxt) 20) / 10)"
    using assms(1) by (intro mult_nonneg_nonneg add_nonneg_nonneg divide_nonneg_nonneg) simp_all
  then show ?thesis by (simp add: weight_safe_def Let_def)
qed

lemma weight_fast_nonneg: "0 \<le> t \<Longrightarrow> 0 \<le> weight_fast cur nxt cl nl t b"
  by (simp add: weight_fast_def Let_def)

lemma weight_balanced_nonneg:
  assumes "0 \<le> t" and "nonneg_crimes cd"
  shows "0 \<le> weight_balanced cd cur nxt cl nl t b"
proof -
  have "0 \<le> min (crimes_at cd nxt) 20" using crimes_at_nonneg [OF assms(2)] by simp
  then have "0 \<le> rat_of_int (min (crimes_at cd nxt) 20) * (1 / 2) * (35 / 100)" by simp
  moreover have "0 \<le> rat_of_int t * (1 / 2)" using assms(1) by simp
  ultimately show ?thesis by (simp add: weight_balanced_def Let_def)
qed

lemma nonneg_weights_three:
  assumes "nonneg_times sg" and "nonneg_crimes cd"
  shows "nonneg_weights sg (Some (weight_safe cd))"
    and "nonneg_weights sg (Some weight_fast)"
    and "nonneg_weights sg (Some (weight_balanced cd))"
  unfolding nonneg_weights_def edge_weight_def
  using arc_time_nonneg [OF assms(1)] weight_safe_nonneg [OF _ assms(2)] weight_fast_nonneg
    weight_balanced_nonneg [OF _ assms(2)]
  by auto

lemma found_best_path:
  assumes "find_shortest_path sg a b wfn mt = Some (Some r)" and "a \<noteq> b"
  shows "\<exists>p. best_path_from sg a b wfn mt (get_available_lines sg a) = Some p"
  using assms by (auto simp: find_shortest_path_def Let_def split: if_splits option.splits)

lemma search_pair:
  assumes nn: "nonneg_weights sg wfn" and np: "no_pruning sg a b wfn mt"
    and x: "find_shortest_path sg a b wfn mt = Some (Some rx)"
    and y: "find_shortest_path sg a b wfn' mt' = Some (Some ry)"
  shows "walk_cost wfn (search_edges sg a b wfn mt) \<le> walk_cost wfn (search_edges sg a b wfn' mt')"
proof (cases "a = b")
  case True
  then show ?thesis by (simp add: search_edges_def)
next
  case False
  from found_best_path [OF x False] found_best_path [OF y False] obtain p q where
    "best_path_from sg a b wfn mt (get_available_lines sg a) = Some p"
    "best_path_from sg a b wfn' mt' (get_available_lines sg a) = Some q" by blast
  from search_optimal [OF nn np this False] show ?thesis .
qed

lemma three_routes_found:
  assumes "map_option (map_option (map name)) (generate_routes ro a b)
     = Some (Some [''SafeRoute'', ''FastRoute'', ''BalancedRoute''])"
  shows "\<exists>s f bl. generate_safe_route ro a b = Some (Some s)
     \<and> generate_fast_route ro a b = Some (Some f)
     \<and> generate_balanced_route ro a b = Some (Some bl)"
  using assms
  by (auto simp: generate_routes_def Let_def split: option.splits if_splits)

text \<open>
  The hypothesis that the search never prunes cannot be dropped for arbitrary tables. On the
  example network, which is not the network of \<open>SUBWAY_LINES\<close> and \<open>TRANSFER_POINTS\<close>,
  \<open>generate_routes\<close> returns all three routes from \<open>O\<close> to \<open>D\<close>, and the SafeRoute costs
  65 under the Safe weights while the edges of the FastRoute cost 44 under the Safe
  weights. The Safe search reaches \<open>M\<close> first over the six transfers, does not expand it
  because of the transfer cap, and is left with the sixty-minute walk.
\<close>

theorem safe_route_not_cheapest:
  "map_option (map_option (map name)) (generate_routes hub_optimizer ''O'' ''D'')
     = Some (Some [''SafeRoute'', ''FastRoute'', ''BalancedRoute''])
   \<and> path_cost (weight_safe hub_crime)
       (search_edges (router hub_optimizer) ''O'' ''D'' (Some (weight_safe hub_crime)) 5) = 65
   \<and> path_cost (weight_safe hub_crime)
       (search_edges (router hub_optimizer) ''O'' ''D'' (Some weight_fast) 5) = 44
   \<and> \<not> path_cost (weight_safe hub_crime)
         (search_edges (router hub_optimizer) ''O'' ''D'' (Some (weight_safe hub_crime)) 5)
       \<le> path_cost (weight_safe hub_crime)
         (search_edges (router hub_optimizer) ''O'' ''D'' (Some weight_fast) 5)"
  by code_simp

text \<open>
  For every pair of tables: whenever \<open>generate_routes\<close> returns all three routes and no
  travel time and no crime count is negative, each named route whose searches (one for each
  start line) never prune, that is, never leave a newly visited node unexpanded because its
  transfer count is above the cap of 5, has a total cost under its own weight function,
  summed over its traversed edges, that is at most the cost under that weight function of
  the edges of each of the other two routes.
\<close>

theorem named_routes_optimal:
  assumes three: "map_option (map_option (map name)) (generate_routes ro a b)
     = Some (Some [''SafeRoute'', ''FastRoute'', ''BalancedRoute''])"
    and times: "nonneg_times (router ro)" and crimes: "nonneg_crimes (opt_crime_data ro)"
  shows "(no_pruning (router ro) a b (Some weight_fast) 5 \<longrightarrow>
        path_cost weight_fast (search_edges (router ro) a b (Some weight_fast) 5)
          \<le> path_cost weight_fast
              (search_edges (router ro) a b (Some (weight_safe (opt_crime_data ro))) 5)
        \<and> path_cost weight_fast (search_edges (router ro) a b (Some weight_fast) 5)
          \<le> path_cost weight_fast
              (search_edges (router ro) a b (Some (weight_balanced (opt_crime_data ro))) 5))
     \<and> (no_pruning (router ro) a b (Some (weight_safe (opt_crime_data ro))) 5 \<longrightarrow>
        path_cost (weight_safe (opt_crime_data ro))
            (search_edges (router ro) a b (Some (weight_safe (opt_crime_data ro))) 5)
          \<le> path_cost (weight_safe (opt_crime_data ro))
              (search_edges (router ro) a b (Some weight_fast) 5)
        \<and> path_cost (weight_safe (opt_crime_data ro))
            (search_edges (router ro) a b (Some (weight_safe (opt_crime_data ro))) 5)
          \<le> path_cost (weight_safe (opt_crime_data ro))
              (search_edges (router ro) a b (Some (weight_balanced (opt_crime_data ro))) 5))
     \<and> (no_pruning (router ro) a b (Some (weight_balanced (opt_crime_data ro))) 5 \<longrightarrow>
        path_cost (weight_balanced (opt_crime_data ro))
            (search_edges (router ro) a b (Some (weight_balanced (opt_crime_data ro))) 5)
          \<le> path_cost (weight_balanced (opt_crime_data ro))
              (search_edges (router ro) a b (Some (weight_safe (opt_crime_data ro))) 5)
        \<and> path_cost (weight_balanced (opt_crime_data ro))
            (search_edges (router ro) a b (Some (weight_balanced (opt_crime_data ro))) 5)
          \<le> path_cost (weight_balanced (opt_crime_data ro))
              (search_edges (router ro) a b (Some weight_fast) 5))"
proof -
  from three_routes_found [OF three] obtain s f bl where
    s: "find_shortest_path (router ro) a b (Some (weight_safe (opt_crime_data ro))) 5 = Some (Some s)"
    and f: "find_shortest_path (router ro) a b (Some weight_fast) 5 = Some (Some f)"
    and bl: "find_shortest_path (router ro) a b (Some (weight_balanced (opt_crime_data ro))) 5
       = Some (Some bl)"
    by (auto simp: generate_safe_route_def generate_fast_route_def generate_balanced_route_def)
  note nn = nonneg_weights_three [OF times crimes]
  show ?thesis
    unfolding path_cost_walk_cost
    using search_pair [OF nn(2) _ f s] search_pair [OF nn(2) _ f bl]
      search_pair [OF nn(1) _ s f] search_pair [OF nn(1) _ s bl]
      search_pair [OF nn(3) _ bl s] search_pair [OF nn(3) _ bl f]
    by blast
qed

lemma hub_three_routes:
  "map_option (map_option (map name)) (generate_routes hub_optimizer ''O'' ''M'')
     = Some (Some [''SafeRoute'', ''FastRoute'', ''BalancedRoute''])"
  by code_simp

lemma hub_nonneg:
  "nonneg_times (router hub_optimizer)"
  "nonneg_crimes (opt_crime_data hub_optimizer)"
  by code_simp+

lemma hub_no_pruning:
  "no_pruning (router hub_optimizer) ''O'' ''M'' (Some weight_fast) 5"
  "no_pruning (router hub_optimizer) ''O'' ''M''
     (Some (weight_safe (opt_crime_data hub_optimizer))) 5"
  "no_pruning (router hub_optimizer) ''O'' ''M''
     (Some (weight_balanced (opt_crime_data hub_optimizer))) 5"
  by code_simp+

theorem named_routes_optimal_witness:
  "map_option (map_option (map name)) (generate_routes hub_optimizer ''O'' ''M'')
     = Some (Some [''SafeRoute'', ''FastRoute'', ''BalancedRoute''])
   \<and> nonneg_times (router hub_optimizer)
   \<and> nonneg_crimes (opt_crime_data hub_optimizer)
   \<and> no_pruning (router hub_optimizer) ''O'' ''M'' (Some weight_fast) 5
   \<and> no_pruning (router hub_optimizer) ''O'' ''M''
       (Some (weight_safe (opt_crime_data hub_optimizer))) 5
   \<and> no_pruning (router hub_optimizer) ''O'' ''M''
       (Some (weight_balanced (opt_crime_data hub_optimizer))) 5
   \<and> path_cost weight_fast (search_edges (router hub_optimizer) ''O'' ''M'' (Some weight_fast) 5)
       \<le> path_cost weight_fast
           (search_edges (router hub_optimizer) ''O'' ''M''
             (Some (weight_safe (opt_crime_data hub_optimizer))) 5)
   \<and> path_cost weight_fast (search_edges (router hub_optimizer) ''O'' ''M'' (Some weight_fast) 5)
       \<le> path_cost weight_fast
           (search_edges (router hub_optimizer) ''O'' ''M''
             (Some (weight_balanced (opt_crime_data hub_optimizer))) 5)
   \<and> path_cost (weight_safe (opt_crime_data hub_optimizer))
         (search_edges (router hub_optimizer) ''O'' ''M''
           (Some (weight_safe (opt_crime_data hub_optimizer))) 5)
       \<le> path_cost (weight_safe (opt_crime_data hub_optimizer))
           (search_edges (router hub_optimizer) ''O'' ''M'' (Some weight_fast) 5)
   \<and> path_cost (weight_balanced (opt_crime_data hub_optimizer))
         (search_edges (router hub_optimizer) ''O'' ''M''
           (Some (weight_balanced (opt_crime_data hub_optimizer))) 5)
       \<le> path_cost (weight_balanced (opt_crime_data hub_optimizer))
           (search_edges (router hub_optimizer) ''O'' ''M'' (Some weight_fast) 5)"
  using named_routes_optimal [OF hub_three_routes hub_nonneg] hub_three_routes
    hub_nonneg hub_no_pruning
  by blast

end
